theory Spec2Isabelle
  imports Main "HOL-Library.Word" "HOL-Library.AList"
begin

unbundle bit_operations_syntax

section \<open>JavaScript primitives used by sqlite-live-select.js\<close>

text \<open>
  A Node.js \<open>Buffer\<close> is a sequence of unsigned bytes. JavaScript numbers that index a
  buffer are modelled as \<open>int\<close>: several offsets of the source are sums with a decoded
  varint, which can be negative.
\<close>

type_synonym byte = "8 word"
type_synonym buffer = "byte list"

datatype error =
    RangeError
  | TypeError
  | PARSE_COLUMN_ERROR
  | SqliteError
  | WAL_PARSE_ERROR
  | CACHE_TABLE_ERROR

text \<open>\<open>buffer[i]\<close>: the byte at an index in range, \<open>undefined\<close> (here \<open>None\<close>) elsewhere.\<close>

definition buf_get :: "buffer \<Rightarrow> int \<Rightarrow> byte option" where
  "buf_get buf i = (if 0 \<le> i \<and> i < int (length buf) then Some (buf ! nat i) else None)"

text \<open>
  \<open>byte & mask\<close> on a byte or on \<open>undefined\<close>, with a mask below \<open>2 ^ 31\<close>: \<open>undefined\<close>
  converts to 0, a byte to its unsigned value.
\<close>

definition js_and :: "byte option \<Rightarrow> int \<Rightarrow> int" where
  "js_and b m = (case b of None \<Rightarrow> 0 | Some x \<Rightarrow> uint x AND m)"

text \<open>
  The 32-bit operators of JavaScript. \<open>to_int32\<close> is ToInt32 on an integral number;
  \<open>x << s\<close> shifts the 32-bit value by \<open>s mod 32\<close> and wraps; \<open>a | b\<close> is the bitwise
  disjunction of the two 32-bit values.
\<close>

definition to_int32 :: "int \<Rightarrow> int" where
  "to_int32 x = (x + 2 ^ 31) mod 2 ^ 32 - 2 ^ 31"

definition js_shl :: "int \<Rightarrow> nat \<Rightarrow> int" where
  "js_shl x s = to_int32 (push_bit (s mod 32) (to_int32 x))"

definition js_or :: "int \<Rightarrow> int \<Rightarrow> int" where
  "js_or a b = to_int32 a OR to_int32 b"

text \<open>\<open>adjustOffset\<close> and \<open>Buffer.prototype.slice\<close>: a negative index counts from the end.\<close>

definition adjustOffset :: "int \<Rightarrow> nat \<Rightarrow> nat" where
  "adjustOffset off len =
     (if off < 0 then (if off + int len > 0 then nat (off + int len) else 0)
      else if off < int len then nat off
      else len)"

definition js_slice :: "buffer \<Rightarrow> int \<Rightarrow> int \<Rightarrow> buffer" where
  "js_slice buf start end =
     (let s = adjustOffset start (length buf);
          e = adjustOffset end (length buf)
      in take (e - s) (drop s buf))"

text \<open>
  \<open>buffer.toString('utf8', start, end)\<close>: the range is clamped to the buffer, a negative
  index is 0. A text is kept as its sequence of bytes.
\<close>

definition buf_toString :: "buffer \<Rightarrow> int \<Rightarrow> int \<Rightarrow> string" where
  "buf_toString buf start end =
     (let len = int (length buf);
          s = (if start \<le> 0 then 0 else start)
      in if s \<ge> len then []
         else (let e = (if end > len then len else end)
               in if e \<le> s then []
                  else map (\<lambda>b. char_of (unat b)) (take (nat (e - s)) (drop (nat s) buf))))"

text \<open>The checked fixed-width reads: a RangeError when the bytes are not all in range.\<close>

definition readUInt8 :: "buffer \<Rightarrow> nat \<Rightarrow> error + nat" where
  "readUInt8 buf off =
     (if off + 1 \<le> length buf then Inr (unat (buf ! off)) else Inl RangeError)"

definition readUInt16BE :: "buffer \<Rightarrow> nat \<Rightarrow> error + nat" where
  "readUInt16BE buf off =
     (if off + 2 \<le> length buf
      then Inr (unat (buf ! off) * 2 ^ 8 + unat (buf ! (off + 1)))
      else Inl RangeError)"

definition readUInt32LE :: "buffer \<Rightarrow> nat \<Rightarrow> error + nat" where
  "readUInt32LE buf off =
     (if off + 4 \<le> length buf
      then Inr (unat (buf ! off) + unat (buf ! (off + 1)) * 2 ^ 8
                + unat (buf ! (off + 2)) * 2 ^ 16 + unat (buf ! (off + 3)) * 2 ^ 24)
      else Inl RangeError)"

section \<open>Varints: \<open>getVarintSize\<close> and \<open>readVarint\<close>\<close>

text \<open>
  \<^verbatim>\<open>while (size < 8 && (buffer[offset + size] & 0x80) !== 0) size++; return size + 1;\<close>
\<close>

function getVarintSize_loop :: "buffer \<Rightarrow> int \<Rightarrow> nat \<Rightarrow> nat" where
  "getVarintSize_loop buf off sz =
     (if sz < 8 \<and> js_and (buf_get buf (off + int sz)) 0x80 \<noteq> 0
      then getVarintSize_loop buf off (sz + 1)
      else sz + 1)"
  by pat_completeness auto
termination
  by (relation "measure (\<lambda>(buf, off, sz). 8 - sz)") auto

definition getVarintSize :: "buffer \<Rightarrow> int \<Rightarrow> nat" where
  "getVarintSize buf off = getVarintSize_loop buf off 0"

text \<open>
  \<^verbatim>\<open>while (size < 8) { const byte = buffer[offset + size];
       value |= (byte & 0x7F) << (7 * size);
       if ((byte & 0x80) === 0) break; size++; }
     return value;\<close>
\<close>

function readVarint_loop :: "buffer \<Rightarrow> int \<Rightarrow> int \<Rightarrow> nat \<Rightarrow> int" where
  "readVarint_loop buf off val sz =
     (if sz < 8
      then (let byte = buf_get buf (off + int sz);
                val' = js_or val (js_shl (js_and byte 0x7F) (7 * sz))
            in if js_and byte 0x80 = 0 then val'
               else readVarint_loop buf off val' (sz + 1))
      else val)"
  by pat_completeness auto
termination
  by (relation "measure (\<lambda>(buf, off, val, sz). 8 - sz)") auto

definition readVarint :: "buffer \<Rightarrow> int \<Rightarrow> int" where
  "readVarint buf off = readVarint_loop buf off 0 0"

section \<open>Values, rows and the environment of the engine\<close>

text \<open>
  A JavaScript value as the engine meets it: SQL values (\<open>null\<close>, numbers, strings,
  buffers) and what \<open>JSON.parse\<close> can return. A double read by \<open>readDoubleLE\<close> is kept
  as its eight bytes. A row object is the list of its properties in insertion order;
  \<open>row[name] = v\<close> is \<open>AList.update\<close>, \<open>row[name]\<close> is \<open>map_of\<close>.
\<close>

datatype val =
    VNull
  | VBool bool
  | VInt int
  | VReal "byte list"
  | VText string
  | VBlob "byte list"
  | VArr "val list"
  | VObj "(string \<times> val) list"

type_synonym row = "(string \<times> val) list"

record column =
  col_name :: string
  col_type :: string

record diff =
  added :: "row list"
  changed :: "row list"
  removed :: "row list"

text \<open>
  What the source takes from outside: the built-ins \<open>JSON.parse\<close> (\<open>None\<close> when it throws)
  and \<open>JSON.stringify\<close>, and the database, read through \<open>sqlite_master\<close> (root page to
  name), \<open>PRAGMA table_info\<close>, the statement \<open>SELECT rowid, <columns> FROM <table>\<close> of
  \<open>cacheTable\<close>, by table and column list, and the prepared statement of a live query, by
  query identifier. What a statement returns, or the error it throws, is the database's
  answer: the row objects of \<open>db_select\<close> have the properties the database names, which
  for the rowid is \<open>rowid\<close> or, on a table with an INTEGER PRIMARY KEY column, the name
  of that column.
\<close>

record env =
  JSON_parse :: "string \<Rightarrow> val option"
  JSON_stringify :: "row \<Rightarrow> string"
  sqlite_master :: "nat \<Rightarrow> string option"
  db_table_info :: "string \<Rightarrow> column list"
  db_select :: "string \<Rightarrow> string list \<Rightarrow> error + row list"
  stmt_all :: "nat \<Rightarrow> error + row list"

section \<open>Key selectors\<close>

datatype key = KUndefined | KNum int | KStr string

text \<open>
  \<open>Index: () => (row, index) => index\<close>, \<open>Columns: (columns) => (row) => ...join('|')\<close>,
  \<open>Func: (keyFunc) => keyFunc\<close>. A selector is called with a row and, only when it is the
  callback of \<open>Array.prototype.map\<close>, with the index of the row.
\<close>

datatype keysel =
    Index
  | Columns "string list"
  | Func "row \<Rightarrow> nat option \<Rightarrow> key"

definition digit_char :: "nat \<Rightarrow> char" where
  "digit_char d = char_of (d + 48)"

fun decimal :: "nat \<Rightarrow> string" where
  "decimal n = (if 10 \<le> n then decimal (n div 10) @ [digit_char (n mod 10)] else [digit_char n])"

declare decimal.simps [simp del]

fun join :: "string \<Rightarrow> string list \<Rightarrow> string" where
  "join sep [] = []"
| "join sep [x] = x"
| "join sep (x # y # zs) = x @ sep @ join sep (y # zs)"

text \<open>
  ToString on a value, and the conversion of an array element by \<open>Array.prototype.join\<close>,
  where \<open>null\<close> and \<open>undefined\<close> give the empty string. The decimal form of a double is
  left unspecified.
\<close>

fun js_toString :: "val \<Rightarrow> string" where
  "js_toString VNull = ''null''"
| "js_toString (VBool b) = (if b then ''true'' else ''false'')"
| "js_toString (VInt i) = (if i < 0 then CHR ''-'' # decimal (nat (- i)) else decimal (nat i))"
| "js_toString (VReal bs) = undefined"
| "js_toString (VText s) = s"
| "js_toString (VBlob bs) = map (\<lambda>b. char_of (unat b)) bs"
| "js_toString (VArr xs) =
     join '','' (map (\<lambda>x. case x of VNull \<Rightarrow> [] | _ \<Rightarrow> js_toString x) xs)"
| "js_toString (VObj ps) = ''[object Object]''"

definition join_element :: "val option \<Rightarrow> string" where
  "join_element x = (case x of None \<Rightarrow> [] | Some VNull \<Rightarrow> [] | Some v \<Rightarrow> js_toString v)"

fun keySelector :: "keysel \<Rightarrow> row \<Rightarrow> nat option \<Rightarrow> key" where
  "keySelector Index row idx = (case idx of None \<Rightarrow> KUndefined | Some i \<Rightarrow> KNum (int i))"
| "keySelector (Columns columns) row idx =
     KStr (join ''|'' (map (\<lambda>col. join_element (map_of row col)) columns))"
| "keySelector (Func keyFunc) row idx = keyFunc row idx"

section \<open>The diff engine: \<open>diffResults\<close> and \<open>execute\<close>\<close>

text \<open>\<open>result.map(this.keySelector)\<close>: the selector receives each row with its index.\<close>

definition map_keySelector :: "keysel \<Rightarrow> row list \<Rightarrow> key list" where
  "map_keySelector ks rs = map (\<lambda>(r, i). keySelector ks r (Some i)) (zip rs [0..<length rs])"

text \<open>
  The first loop of \<open>diffResults\<close>, over \<open>newResult\<close>. In its body the selector is called
  with the row alone. \<open>oldResult.find\<close> returns the first old row with the key, or
  \<open>undefined\<close>, whose \<open>JSON.stringify\<close> is \<open>undefined\<close> and differs from every string.
\<close>

definition changed_row :: "env \<Rightarrow> keysel \<Rightarrow> row list \<Rightarrow> row \<Rightarrow> key \<Rightarrow> bool" where
  "changed_row E ks oldResult row k =
     (case find (\<lambda>r. keySelector ks r None = k) oldResult of
        None \<Rightarrow> True
      | Some r \<Rightarrow> JSON_stringify E row \<noteq> JSON_stringify E r)"

fun diff_new_loop :: "env \<Rightarrow> keysel \<Rightarrow> key set \<Rightarrow> row list \<Rightarrow> row list \<Rightarrow> diff \<Rightarrow> diff" where
  "diff_new_loop E ks oldKeys oldResult [] d = d"
| "diff_new_loop E ks oldKeys oldResult (row # rest) d =
     (let k = keySelector ks row None
      in if k \<notin> oldKeys
         then diff_new_loop E ks oldKeys oldResult rest (d\<lparr>added := added d @ [row]\<rparr>)
         else if changed_row E ks oldResult row k
         then diff_new_loop E ks oldKeys oldResult rest (d\<lparr>changed := changed d @ [row]\<rparr>)
         else diff_new_loop E ks oldKeys oldResult rest d)"

fun diff_old_loop :: "keysel \<Rightarrow> key set \<Rightarrow> row list \<Rightarrow> diff \<Rightarrow> diff" where
  "diff_old_loop ks newKeys [] d = d"
| "diff_old_loop ks newKeys (row # rest) d =
     (let k = keySelector ks row None
      in if k \<notin> newKeys
         then diff_old_loop ks newKeys rest (d\<lparr>removed := removed d @ [row]\<rparr>)
         else diff_old_loop ks newKeys rest d)"

definition diffResults :: "env \<Rightarrow> keysel \<Rightarrow> row list option \<Rightarrow> row list \<Rightarrow> diff" where
  "diffResults E ks oldResult newResult =
     (let old = (case oldResult of None \<Rightarrow> [] | Some rs \<Rightarrow> rs);
          oldKeys = set (map_keySelector ks old);
          newKeys = set (map_keySelector ks newResult);
          d = diff_new_loop E ks oldKeys old newResult \<lparr>added = [], changed = [], removed = []\<rparr>
      in diff_old_loop ks newKeys old d)"

text \<open>What a live query emits.\<close>

datatype emitted = Update diff "row list" | Error error

text \<open>
  \<open>execute\<close> given the last result: the new last result and the event it emits, if any.
  When the statement throws, \<open>this.emit('error', error)\<close> is called and the last result
  stays; what that call does on a query without listener for it is in \<open>invalidate\<close>.
\<close>

definition execute :: "env \<Rightarrow> keysel \<Rightarrow> nat \<Rightarrow> row list option \<Rightarrow> row list option \<times> emitted option" where
  "execute E ks qid lastResult =
     (case stmt_all E qid of
        Inl e \<Rightarrow> (lastResult, Some (Error e))
      | Inr newResult \<Rightarrow>
          (let d = diffResults E ks lastResult newResult
           in (Some newResult,
               if length (added d) > 0 \<or> length (changed d) > 0 \<or> length (removed d) > 0
               then Some (Update d newResult) else None)))"

section \<open>The state of a \<open>LiveSQLite\<close> handle\<close>

text \<open>
  A trigger is \<open>{table, condition}\<close>; its condition, when present, is called with
  \<open>(newRow, oldRow, rowDeleted)\<close> and its result is read as a truth value. A live query is
  an event emitter: \<open>errorListener\<close> says whether a listener for \<open>error\<close> is attached.
\<close>

record trigger =
  table :: string
  condition :: "(row option \<Rightarrow> row option \<Rightarrow> bool \<Rightarrow> bool) option"

record live_query =
  q_keySelector :: keysel
  triggers :: "trigger list"
  lastResult :: "row list option"
  active :: bool
  errorListener :: bool

record cache_settings =
  cs_include :: "string list option"
  cs_exclude :: "string list option"

text \<open>
  What the handle does that can be seen from outside or that a claim orders in time, in
  the order in which it happens: a write to a table's snapshot, a call of
  \<open>notifyQueries\<close>, a call of \<open>query.invalidate()\<close>, an event emitted by a query.

  The key of a snapshot is a JavaScript value or \<open>undefined\<close> (\<open>None\<close>): \<open>cacheTable\<close> uses
  \<open>row.rowid\<close>, \<open>applyChanges\<close> the number decoded from a cell. \<open>thrown\<close> is the exception
  in flight inside \<open>applyChanges\<close>, if any: once it is set, the statements left of the
  loops do not run.
\<close>

datatype event =
    CacheSet string int row
  | CacheDelete string int
  | Notify string "row option" "row option" bool
  | Invalidate nat
  | Emit nat emitted

record state =
  checkConditionWhenQueued :: bool
  columnCache :: "string \<Rightarrow> cache_settings option"
  tableCache :: "string \<Rightarrow> (val option \<Rightarrow> row option) option"
  tableInfo :: "string \<Rightarrow> column list option"
  usedTables :: "string set"
  liveQueries :: "(nat \<times> live_query) list"
  queuedUpdates :: "nat set"
  trace :: "event list"
  thrown :: "error option"

section \<open>Decoding a row: \<open>parseValue\<close>, \<open>getValueSize\<close>, \<open>parseRowData\<close>\<close>

definition readDoubleLE :: "buffer \<Rightarrow> int \<Rightarrow> error + val" where
  "readDoubleLE buf off =
     (if 0 \<le> off \<and> off + 8 \<le> int (length buf)
      then Inr (VReal (take 8 (drop (nat off) buf)))
      else Inl RangeError)"

definition parseValue :: "env \<Rightarrow> buffer \<Rightarrow> int \<Rightarrow> string \<Rightarrow> error + val" where
  "parseValue E data off ty =
     (if ty = ''INTEGER'' then Inr (VInt (readVarint data off))
      else if ty = ''REAL'' then readDoubleLE data off
      else if ty = ''TEXT'' then
        (let len = readVarint data off;
             textData = buf_toString data (off + int (getVarintSize data off))
                          (off + int (getVarintSize data off) + len)
         in Inr (case JSON_parse E textData of Some v \<Rightarrow> v | None \<Rightarrow> VText textData))
      else if ty = ''BLOB'' then
        (let blobLength = readVarint data off
         in Inr (VBlob (js_slice data (off + int (getVarintSize data off))
                          (off + int (getVarintSize data off) + blobLength))))
      else Inr VNull)"

definition getValueSize :: "buffer \<Rightarrow> int \<Rightarrow> string \<Rightarrow> int" where
  "getValueSize data off ty =
     (if ty = ''INTEGER'' then int (getVarintSize data off)
      else if ty = ''REAL'' then 8
      else if ty = ''TEXT'' \<or> ty = ''BLOB'' then
        (let len = readVarint data off in int (getVarintSize data off) + len)
      else 0)"

text \<open>
  The loop of \<open>parseRowData\<close> over all columns of \<open>tableInfo\<close>; an exception of
  \<open>parseValue\<close> is rethrown with code \<open>PARSE_COLUMN_ERROR\<close>.
\<close>

fun parseRowData_loop :: "env \<Rightarrow> buffer \<Rightarrow> column list \<Rightarrow> int \<Rightarrow> row \<Rightarrow> error + row" where
  "parseRowData_loop E data [] off rowData = Inr rowData"
| "parseRowData_loop E data (c # cs) off rowData =
     (case parseValue E data off (col_type c) of
        Inl e \<Rightarrow> Inl PARSE_COLUMN_ERROR
      | Inr v \<Rightarrow>
          parseRowData_loop E data cs (off + getValueSize data off (col_type c))
            (AList.update (col_name c) v rowData))"

text \<open>Iterating a table name without \<open>tableInfo\<close> entry is a TypeError.\<close>

definition parseRowData :: "env \<Rightarrow> state \<Rightarrow> string \<Rightarrow> buffer \<Rightarrow> error + row" where
  "parseRowData E st tableName data =
     (case tableInfo st tableName of
        None \<Rightarrow> Inl TypeError
      | Some columns \<Rightarrow> parseRowData_loop E data columns 0 [])"

section \<open>Decoding frames: \<open>processWALFrame\<close> and the loop of \<open>parseWAL\<close>\<close>

text \<open>
  \<open>changes\<close> is a \<open>Map\<close> from table name to a \<open>Map\<close> from rowid to the decoded row, both
  in insertion order. \<open>applyChanges\<close> tests the row for \<open>null\<close>, so it is an option.
\<close>

type_synonym changes = "(string \<times> (int \<times> row option) list) list"

definition changes_set :: "string \<Rightarrow> int \<Rightarrow> row \<Rightarrow> changes \<Rightarrow> changes" where
  "changes_set name rowId rowChanges changes =
     (let changes' = (if map_of changes name = None then AList.update name [] changes else changes)
      in AList.update name
           (AList.update rowId (Some rowChanges) (case map_of changes' name of None \<Rightarrow> [] | Some m \<Rightarrow> m))
           changes')"

text \<open>The body of the loop over the cell pointers, for one cell: the rowid and the row.\<close>

definition decode_cell :: "env \<Rightarrow> state \<Rightarrow> string \<Rightarrow> buffer \<Rightarrow> nat \<Rightarrow> error + int \<times> row" where
  "decode_cell E st name pageData cellOffset =
     (let rowId = readVarint pageData (int cellOffset);
          payloadSize = readVarint pageData (int cellOffset + int (getVarintSize pageData (int cellOffset)));
          payloadOffset = int cellOffset + int (getVarintSize pageData (int cellOffset))
             + int (getVarintSize pageData (int cellOffset + int (getVarintSize pageData (int cellOffset))))
      in case parseRowData E st name (js_slice pageData payloadOffset (payloadOffset + payloadSize)) of
           Inl e \<Rightarrow> Inl e
         | Inr rowChanges \<Rightarrow> Inr (rowId, rowChanges))"

text \<open>\<open>for (let i = 0; i < cellCount; i++)\<close>, by the number of cells left.\<close>

fun cells_loop :: "env \<Rightarrow> state \<Rightarrow> string \<Rightarrow> buffer \<Rightarrow> nat \<Rightarrow> nat \<Rightarrow> changes \<Rightarrow> error + changes" where
  "cells_loop E st name pageData 0 cellPointerOffset changes = Inr changes"
| "cells_loop E st name pageData (Suc n) cellPointerOffset changes =
     (case readUInt16BE pageData cellPointerOffset of
        Inl e \<Rightarrow> Inl e
      | Inr cellOffset \<Rightarrow>
          (case decode_cell E st name pageData cellOffset of
             Inl e \<Rightarrow> Inl e
           | Inr (rowId, rowChanges) \<Rightarrow>
               cells_loop E st name pageData n (cellPointerOffset + 2)
                 (changes_set name rowId rowChanges changes)))"

definition processWALFrame :: "env \<Rightarrow> state \<Rightarrow> nat \<Rightarrow> buffer \<Rightarrow> changes \<Rightarrow> error + changes" where
  "processWALFrame E st pageNumber pageData changes =
     (case readUInt8 pageData 0 of
        Inl e \<Rightarrow> Inl e
      | Inr pageType \<Rightarrow>
          if pageType = 13 then
            (case sqlite_master E pageNumber of
               None \<Rightarrow> Inr changes
             | Some name \<Rightarrow>
                 if name \<in> usedTables st then
                   (case readUInt16BE pageData 3 of
                      Inl e \<Rightarrow> Inl e
                    | Inr cellCount \<Rightarrow> cells_loop E st name pageData cellCount 8 changes)
                 else Inr changes)
          else Inr changes)"

text \<open>
  \<^verbatim>\<open>while (offset < buffer.length) {
       const frameSize = buffer.readUInt32LE(offset);
       const pageNumber = buffer.readUInt32LE(offset + 4);
       const pageData = buffer.slice(offset + 8, offset + frameSize);
       this.processWALFrame(pageNumber, pageData, changes);
       offset += frameSize; }\<close>
  The loop goes on only when \<open>processWALFrame\<close> has returned, which it does on a page of
  at least one byte only, so that \<open>frameSize\<close> is above 8 then.
\<close>

function parseWAL_loop :: "env \<Rightarrow> state \<Rightarrow> buffer \<Rightarrow> nat \<Rightarrow> changes \<Rightarrow> error + changes" where
  "parseWAL_loop E st buf offset changes =
     (if offset < length buf then
        (case readUInt32LE buf offset of
           Inl e \<Rightarrow> Inl e
         | Inr frameSize \<Rightarrow>
             (case readUInt32LE buf (offset + 4) of
                Inl e \<Rightarrow> Inl e
              | Inr pageNumber \<Rightarrow>
                  (case processWALFrame E st pageNumber
                          (js_slice buf (int (offset + 8)) (int (offset + frameSize))) changes of
                     Inl e \<Rightarrow> Inl e
                   | Inr changes' \<Rightarrow> parseWAL_loop E st buf (offset + frameSize) changes')))
      else Inr changes)"
  by pat_completeness auto
termination
proof (relation "measure (\<lambda>(E, st, buf, offset, changes). length buf - offset)")
  show "wf (measure (\<lambda>(E, st, buf, offset, changes). length buf - offset))"
    by simp
next
  fix E :: env and st :: state and buf :: buffer and offset frameSize pageNumber :: nat
    and changes changes' :: changes
  assume lt: "offset < length buf"
    and ok: "processWALFrame E st pageNumber
               (js_slice buf (int (offset + 8)) (int (offset + frameSize))) changes = Inr changes'"
  have "js_slice buf (int (offset + 8)) (int (offset + frameSize)) \<noteq> []"
    using ok by (auto simp add: processWALFrame_def readUInt8_def split: if_splits)
  then have "adjustOffset (int (offset + 8)) (length buf)
               < adjustOffset (int (offset + frameSize)) (length buf)"
    by (simp add: js_slice_def Let_def)
  then have "0 < frameSize"
    by (auto simp add: adjustOffset_def split: if_splits)
  then show "((E, st, buf, offset + frameSize, changes'), (E, st, buf, offset, changes))
               \<in> measure (\<lambda>(E, st, buf, offset, changes). length buf - offset)"
    using lt by simp
qed

declare parseWAL_loop.simps [simp del]

section \<open>Applying a batch: \<open>notifyQueries\<close> and \<open>applyChanges\<close>\<close>

text \<open>\<open>query.triggers.some(trigger => ...)\<close>.\<close>

definition needsUpdate :: "live_query \<Rightarrow> string \<Rightarrow> row option \<Rightarrow> row option \<Rightarrow> bool \<Rightarrow> bool" where
  "needsUpdate query tableName oldRow newRow rowDeleted =
     list_ex (\<lambda>trigger.
        if table trigger \<noteq> tableName then False
        else (case condition trigger of
                Some c \<Rightarrow> c newRow oldRow rowDeleted
              | None \<Rightarrow> True))
       (triggers query)"

text \<open>
  \<open>query.invalidate()\<close>: an active query executes at once. The call of \<open>emit\<close> that
  \<open>execute\<close> makes reaches the listeners of the query; for an error event on a query with
  no listener for it, \<open>emit\<close> throws the error instead, out of \<open>execute\<close> and \<open>invalidate\<close>.
\<close>

definition invalidate :: "env \<Rightarrow> nat \<Rightarrow> state \<Rightarrow> state" where
  "invalidate E queryId st =
     (case map_of (liveQueries st) queryId of
        None \<Rightarrow> st
      | Some query \<Rightarrow>
          (let st1 = st\<lparr>trace := trace st @ [Invalidate queryId]\<rparr>
           in if active query then
                (case execute E (q_keySelector query) queryId (lastResult query) of
                   (res, ev) \<Rightarrow>
                     st1\<lparr>liveQueries := AList.update queryId (query\<lparr>lastResult := res\<rparr>) (liveQueries st1),
                         trace := trace st1 @
                           (case ev of
                              None \<Rightarrow> []
                            | Some (Error e) \<Rightarrow> if errorListener query then [Emit queryId (Error e)] else []
                            | Some (Update d rows) \<Rightarrow> [Emit queryId (Update d rows)]),
                         thrown :=
                           (case ev of
                              Some (Error e) \<Rightarrow> if errorListener query then None else Some e
                            | _ \<Rightarrow> None)\<rparr>)
              else st1))"

text \<open>The body of the loop of \<open>notifyQueries\<close> for one entry of \<open>liveQueries\<close>.\<close>

definition notify_query :: "env \<Rightarrow> string \<Rightarrow> row option \<Rightarrow> row option \<Rightarrow> bool \<Rightarrow> nat \<Rightarrow> state \<Rightarrow> state" where
  "notify_query E tableName oldRow newRow rowDeleted queryId st =
     (if thrown st \<noteq> None then st
      else (case map_of (liveQueries st) queryId of
              None \<Rightarrow> st
            | Some query \<Rightarrow>
                if needsUpdate query tableName oldRow newRow rowDeleted then
                  (if checkConditionWhenQueued st \<or> queryId \<notin> queuedUpdates st
                   then invalidate E queryId (st\<lparr>queuedUpdates := insert queryId (queuedUpdates st)\<rparr>)
                   else st)
                else st))"

definition notifyQueries :: "env \<Rightarrow> string \<Rightarrow> row option \<Rightarrow> row option \<Rightarrow> bool \<Rightarrow> state \<Rightarrow> state" where
  "notifyQueries E tableName oldRow newRow rowDeleted st =
     fold (notify_query E tableName oldRow newRow rowDeleted) (map fst (liveQueries st))
       (st\<lparr>trace := trace st @ [Notify tableName oldRow newRow rowDeleted]\<rparr>)"

definition cache_set :: "string \<Rightarrow> int \<Rightarrow> row \<Rightarrow> state \<Rightarrow> state" where
  "cache_set tableName rowId newRow st =
     (case tableCache st tableName of
        None \<Rightarrow> st
      | Some tc \<Rightarrow>
          st\<lparr>tableCache := (tableCache st)(tableName \<mapsto> tc(Some (VInt rowId) \<mapsto> newRow)),
             trace := trace st @ [CacheSet tableName rowId newRow]\<rparr>)"

definition cache_delete :: "string \<Rightarrow> int \<Rightarrow> state \<Rightarrow> state" where
  "cache_delete tableName rowId st =
     (case tableCache st tableName of
        None \<Rightarrow> st
      | Some tc \<Rightarrow>
          st\<lparr>tableCache := (tableCache st)(tableName \<mapsto> tc(Some (VInt rowId) := None)),
             trace := trace st @ [CacheDelete tableName rowId]\<rparr>)"

text \<open>The body of the inner loop of \<open>applyChanges\<close>: insert, delete, update, or nothing.\<close>

definition apply_row :: "env \<Rightarrow> string \<Rightarrow> int \<times> row option \<Rightarrow> state \<Rightarrow> state" where
  "apply_row E tableName change st =
     (if thrown st \<noteq> None then st
      else (case tableCache st tableName of
              None \<Rightarrow> st
            | Some tc \<Rightarrow>
                (case (tc (Some (VInt (fst change))), snd change) of
                   (None, Some newRow) \<Rightarrow>
                     notifyQueries E tableName None (Some newRow) False
                       (cache_set tableName (fst change) newRow st)
                 | (Some oldRow, None) \<Rightarrow>
                     notifyQueries E tableName (Some oldRow) None True
                       (cache_delete tableName (fst change) st)
                 | (Some oldRow, Some newRow) \<Rightarrow>
                     notifyQueries E tableName (Some oldRow) (Some newRow) False
                       (cache_set tableName (fst change) newRow st)
                 | (None, None) \<Rightarrow> st)))"

definition apply_table :: "env \<Rightarrow> string \<times> (int \<times> row option) list \<Rightarrow> state \<Rightarrow> state" where
  "apply_table E entry st =
     (case tableCache st (fst entry) of
        None \<Rightarrow> st
      | Some tc \<Rightarrow> fold (apply_row E (fst entry)) (snd entry) st)"

text \<open>No exception is in flight when \<open>applyChanges\<close> starts.\<close>

definition applyChanges :: "env \<Rightarrow> changes \<Rightarrow> state \<Rightarrow> state" where
  "applyChanges E changes st = fold (apply_table E) changes (st\<lparr>thrown := None\<rparr>)"

text \<open>
  \<open>parseWAL\<close> on the bytes read from the file: the state it leaves, or the error it
  throws together with the state it leaves. Any exception of the decoding is rethrown
  with code \<open>WAL_PARSE_ERROR\<close> before anything is applied: the state is as before. An
  exception that ends \<open>applyChanges\<close> early is caught and rethrown in the same way, and
  the writes made so far stay.
\<close>

definition parseWAL :: "env \<Rightarrow> state \<Rightarrow> buffer \<Rightarrow> (error \<times> state) + state" where
  "parseWAL E st buf =
     (case parseWAL_loop E st buf 0 [] of
        Inl e \<Rightarrow> Inl (WAL_PARSE_ERROR, st)
      | Inr changes \<Rightarrow>
          (let st' = applyChanges E changes st
           in case thrown st' of
                Some e \<Rightarrow> Inl (WAL_PARSE_ERROR, st'\<lparr>thrown := None\<rparr>)
              | None \<Rightarrow> Inr st'))"

section \<open>Loading a table: \<open>cacheTable\<close>\<close>

text \<open>The columns \<open>cacheTable\<close> selects: the include list, or all but the exclude list.\<close>

definition cached_columns :: "cache_settings option \<Rightarrow> column list \<Rightarrow> string list" where
  "cached_columns settings info =
     (let cacheSettings = (case settings of
                             None \<Rightarrow> \<lparr>cs_include = None, cs_exclude = None\<rparr>
                           | Some c \<Rightarrow> c);
          columns = map col_name info
      in case cs_include cacheSettings of
           Some inc \<Rightarrow> inc
         | None \<Rightarrow>
             (case cs_exclude cacheSettings of
                Some exc \<Rightarrow> filter (\<lambda>col. col \<notin> set exc) columns
              | None \<Rightarrow> columns))"

definition cacheTableInfo :: "env \<Rightarrow> string \<Rightarrow> state \<Rightarrow> state" where
  "cacheTableInfo E tableName st =
     st\<lparr>tableInfo := (tableInfo st)(tableName \<mapsto> db_table_info E tableName)\<rparr>"

text \<open>
  \<open>cacheTable\<close> returns the state it leaves and the error it throws, if any: the table
  information it has stored stays when the selection fails. Each row the statement
  returns is stored under its property \<open>rowid\<close>, which is \<open>undefined\<close> when the row has
  none; a later row replaces an earlier one of the same key.
\<close>

definition cacheTable :: "env \<Rightarrow> string \<Rightarrow> state \<Rightarrow> state \<times> error option" where
  "cacheTable E tableName st =
     (let st1 = (if tableInfo st tableName = None then cacheTableInfo E tableName st else st);
          info = (case tableInfo st1 tableName of None \<Rightarrow> [] | Some i \<Rightarrow> i);
          columns = cached_columns (columnCache st1 tableName) info
      in case db_select E tableName columns of
           Inl e \<Rightarrow> (st1, Some CACHE_TABLE_ERROR)
         | Inr rows \<Rightarrow>
             (st1\<lparr>tableCache := (tableCache st1)(tableName \<mapsto>
                     fold (\<lambda>row cache. cache(map_of row ''rowid'' \<mapsto> row)) rows Map.empty)\<rparr>,
              None))"

definition ensureTableCached :: "env \<Rightarrow> string \<Rightarrow> state \<Rightarrow> state \<times> error option" where
  "ensureTableCached E tableName st =
     (if tableCache st tableName = None then
        (case cacheTable E tableName st of
           (st', Some e) \<Rightarrow> (st', Some e)
         | (st', None) \<Rightarrow> (st'\<lparr>usedTables := insert tableName (usedTables st')\<rparr>, None))
      else (st\<lparr>usedTables := insert tableName (usedTables st)\<rparr>, None))"

section \<open>Encodings, reference decoders and trace properties for the statements\<close>

text \<open>
  The bytes \<open>readVarint\<close> accepts for a number: groups of seven bits, the least
  significant group first, the top bit set on every byte but the last.
\<close>

fun encode_varint :: "nat \<Rightarrow> buffer" where
  "encode_varint v =
     (if v < 128 then [of_nat v]
      else of_nat (128 + v mod 128) # encode_varint (v div 128))"

declare encode_varint.simps [simp del]

text \<open>
  The varint as the specification words it, on unbounded integers: at most nine bytes,
  seven bits from each of the first eight, least significant group first, all eight bits
  of the ninth, the value with the number of bytes read, and \<open>CorruptFrame\<close> when the
  buffer ends first.
\<close>

datatype spec_error = CorruptFrame

fun spec_readVarint_bytes :: "byte list \<Rightarrow> nat \<Rightarrow> spec_error + int \<times> nat" where
  "spec_readVarint_bytes [] i = Inl CorruptFrame"
| "spec_readVarint_bytes (b # bs) i =
     (if i = 8 then Inr (uint b * 2 ^ (7 * i), i + 1)
      else if uint b < 128 then Inr (uint b * 2 ^ (7 * i), i + 1)
      else (case spec_readVarint_bytes bs (i + 1) of
              Inl e \<Rightarrow> Inl e
            | Inr (v, n) \<Rightarrow> Inr ((uint b mod 128) * 2 ^ (7 * i) + v, n)))"

definition spec_readVarint :: "buffer \<Rightarrow> int \<Rightarrow> spec_error + int \<times> nat" where
  "spec_readVarint buf off =
     (if off < 0 then Inl CorruptFrame else spec_readVarint_bytes (drop (nat off) buf) 0)"

text \<open>
  The frame \<open>parseWAL\<close> reads: its own length in four bytes, least significant first, the
  page number likewise, then the page.
\<close>

definition le32 :: "nat \<Rightarrow> buffer" where
  "le32 n = [of_nat n, of_nat (n div 2 ^ 8), of_nat (n div 2 ^ 16), of_nat (n div 2 ^ 24)]"

definition encode_frame :: "nat \<times> buffer \<Rightarrow> buffer" where
  "encode_frame f = le32 (8 + length (snd f)) @ le32 (fst f) @ snd f"

text \<open>Handing a list of (page number, page) pairs to \<open>processWALFrame\<close>, in order.\<close>

fun process_frames :: "env \<Rightarrow> state \<Rightarrow> (nat \<times> buffer) list \<Rightarrow> changes \<Rightarrow> error + changes" where
  "process_frames E st [] changes = Inr changes"
| "process_frames E st (f # fs) changes =
     (case processWALFrame E st (fst f) (snd f) changes of
        Inl e \<Rightarrow> Inl e
      | Inr changes' \<Rightarrow> process_frames E st fs changes')"

text \<open>
  The frames as the specification words them: a header of 24 bytes that starts with the
  page number (most significant byte first, as in the SQLite file format), then a page
  of \<open>pageSize\<close> bytes.
\<close>

definition be32 :: "buffer \<Rightarrow> nat" where
  "be32 bs = foldl (\<lambda>acc b. acc * 2 ^ 8 + unat b) 0 (take 4 bs)"

function spec_frames :: "nat \<Rightarrow> buffer \<Rightarrow> (nat \<times> buffer) list" where
  "spec_frames pageSize buf =
     (if length buf < 24 + pageSize then []
      else (be32 buf, take pageSize (drop 24 buf)) # spec_frames pageSize (drop (24 + pageSize) buf))"
  by pat_completeness auto
termination
  by (relation "measure (\<lambda>(pageSize, buf). length buf)") auto

declare spec_frames.simps [simp del]

text \<open>
  The rowid of a cell as the specification orders it: after the payload-size varint.
\<close>

definition spec_cell_rowid :: "buffer \<Rightarrow> nat \<Rightarrow> int" where
  "spec_cell_rowid pageData cellOffset =
     readVarint pageData (int cellOffset + int (getVarintSize pageData (int cellOffset)))"

text \<open>No entry of a change map is a tombstone.\<close>

definition no_tombstones :: "changes \<Rightarrow> bool" where
  "no_tombstones changes = list_all (\<lambda>entry. list_all (\<lambda>change. snd change \<noteq> None) (snd entry)) changes"

text \<open>
  Two orders of a trace. \<open>mutations_first\<close>: no write to a snapshot comes after a
  notification. \<open>write_then_notify\<close>: every write is followed at once by the call of
  \<open>notifyQueries\<close> for the row written, and every such call follows its write.
\<close>

fun is_mutation :: "event \<Rightarrow> bool" where
  "is_mutation (CacheSet t r row) = True"
| "is_mutation (CacheDelete t r) = True"
| "is_mutation e = False"

fun is_notification :: "event \<Rightarrow> bool" where
  "is_notification (Notify t old new del) = True"
| "is_notification (Invalidate q) = True"
| "is_notification e = False"

fun mutations_first :: "event list \<Rightarrow> bool" where
  "mutations_first [] = True"
| "mutations_first (e # es) = ((is_notification e \<longrightarrow> \<not> list_ex is_mutation es) \<and> mutations_first es)"

datatype phase = Ready | Written string "row option" | Bad

fun step :: "phase \<Rightarrow> event \<Rightarrow> phase" where
  "step Ready (CacheSet t r row) = Written t (Some row)"
| "step Ready (CacheDelete t r) = Written t None"
| "step (Written t new) (Notify t' old new' del) =
     (if t' = t \<and> new' = new \<and> del = (new = None) then Ready else Bad)"
| "step Ready (Invalidate q) = Ready"
| "step Ready (Emit q e) = Ready"
| "step p e = Bad"

definition write_then_notify :: "event list \<Rightarrow> bool" where
  "write_then_notify tr = (foldl step Ready tr = Ready)"

text \<open>An event of a query, not of the snapshot: an invalidation or an emission.\<close>

definition quiet_event :: "event \<Rightarrow> bool" where
  "quiet_event e = (case e of Invalidate q \<Rightarrow> True | Emit q x \<Rightarrow> True | _ \<Rightarrow> False)"

definition is_delete :: "event \<Rightarrow> bool" where
  "is_delete e = (case e of CacheDelete t r \<Rightarrow> True | _ \<Rightarrow> False)"

definition is_invalidate :: "event \<Rightarrow> bool" where
  "is_invalidate e = (case e of Invalidate q \<Rightarrow> True | _ \<Rightarrow> False)"

text \<open>
  Three relations between the state before and after a step. \<open>quiet_step\<close>: the
  snapshots, the flag and the registered queries are as before, no query has left the
  queue, and the trace has grown by events of queries only. \<open>batch_step\<close>: the trace has
  grown by writes each followed at once by its notification. \<open>keeps_rows\<close>: every rowid of
  every snapshot is still there, and the trace has grown by no delete.
\<close>

definition quiet_step :: "state \<Rightarrow> state \<Rightarrow> bool" where
  "quiet_step st st' \<longleftrightarrow>
     tableCache st' = tableCache st \<and> checkConditionWhenQueued st' = checkConditionWhenQueued st
     \<and> map fst (liveQueries st') = map fst (liveQueries st)
     \<and> queuedUpdates st \<subseteq> queuedUpdates st'
     \<and> (\<exists>es. trace st' = trace st @ es \<and> list_all quiet_event es)"

definition batch_step :: "state \<Rightarrow> state \<Rightarrow> bool" where
  "batch_step st st' \<longleftrightarrow> (\<exists>tr. trace st' = trace st @ tr \<and> foldl step Ready tr = Ready)"

text \<open>
  \<open>no_requeue\<close>: the flag is as before, no query has left the queue, and the trace has
  grown by no invalidation of a query that was in the queue.
\<close>

definition no_requeue :: "state \<Rightarrow> state \<Rightarrow> bool" where
  "no_requeue st st' \<longleftrightarrow>
     checkConditionWhenQueued st' = checkConditionWhenQueued st
     \<and> queuedUpdates st \<subseteq> queuedUpdates st'
     \<and> (\<exists>es. trace st' = trace st @ es \<and> (\<forall>q. Invalidate q \<in> set es \<longrightarrow> q \<notin> queuedUpdates st))"

definition keeps_rows :: "state \<Rightarrow> state \<Rightarrow> bool" where
  "keeps_rows st st' \<longleftrightarrow>
     (\<forall>t tc r. tableCache st t = Some tc \<longrightarrow> tc r \<noteq> None
        \<longrightarrow> (\<exists>tc'. tableCache st' t = Some tc' \<and> tc' r \<noteq> None))
     \<and> (\<exists>tr. trace st' = trace st @ tr \<and> \<not> list_ex is_delete tr)"

section \<open>A running example\<close>

text \<open>
  A table \<open>users(id INTEGER, profile TEXT, password TEXT)\<close>, without primary key, with
  root page 2 and one row, of rowid 5; the column cache excludes \<open>password\<close>, so that
  \<open>cacheTable\<close> selects \<open>rowid\<close>, \<open>id\<close> and \<open>profile\<close>; one live query, number 1, selects all
  of \<open>users\<close>, keyed by \<open>id\<close>, with one trigger without condition and a listener for its
  errors. In the example \<open>JSON.parse\<close> accepts the text \<open>[1,2]\<close> only, and \<open>JSON.stringify\<close>
  writes each property as \<open>name:value;\<close>.
\<close>

definition ex_info :: "column list" where
  "ex_info = [\<lparr>col_name = ''id'', col_type = ''INTEGER''\<rparr>,
              \<lparr>col_name = ''profile'', col_type = ''TEXT''\<rparr>,
              \<lparr>col_name = ''password'', col_type = ''TEXT''\<rparr>]"

definition ex_row5 :: row where
  "ex_row5 = [(''id'', VInt 5), (''profile'', VText ''[1,2]''), (''password'', VText ''pw'')]"

definition ex_row5' :: row where
  "ex_row5' = [(''id'', VInt 5), (''profile'', VText ''[1,2]''), (''password'', VText ''new'')]"

definition ex_cached5 :: row where
  "ex_cached5 = [(''rowid'', VInt 5), (''id'', VInt 5), (''profile'', VText ''[1,2]'')]"

definition ex_env :: env where
  "ex_env = \<lparr>
     JSON_parse = (\<lambda>s. if s = ''[1,2]'' then Some (VArr [VInt 1, VInt 2]) else None),
     JSON_stringify = (\<lambda>r. concat (map (\<lambda>p. fst p @ '':'' @ js_toString (snd p) @ '';'') r)),
     sqlite_master = (\<lambda>n. if n = 2 then Some ''users'' else None),
     db_table_info = (\<lambda>t. if t = ''users'' then ex_info else []),
     db_select = (\<lambda>t cols. if t = ''users'' \<and> cols = [''id'', ''profile'']
                          then Inr [ex_cached5] else Inl SqliteError),
     stmt_all = (\<lambda>q. Inr [ex_row5'])\<rparr>"

definition ex_query :: live_query where
  "ex_query = \<lparr>q_keySelector = Columns [''id''],
               triggers = [\<lparr>table = ''users'', condition = None\<rparr>],
               lastResult = Some [ex_row5],
               active = True,
               errorListener = True\<rparr>"

definition ex_state0 :: state where
  "ex_state0 = \<lparr>
     checkConditionWhenQueued = False,
     columnCache = (\<lambda>t. if t = ''users''
                          then Some \<lparr>cs_include = None, cs_exclude = Some [''password'']\<rparr> else None),
     tableCache = Map.empty,
     tableInfo = Map.empty,
     usedTables = {},
     liveQueries = [(1, ex_query)],
     queuedUpdates = {},
     trace = [],
     thrown = None\<rparr>"

text \<open>
  The example state after \<open>ensureTableCached('users')\<close>: the row of rowid 5 is in the
  snapshot of \<open>users\<close> as \<open>cacheTable\<close> has loaded it.
\<close>

definition ex_state :: state where
  "ex_state = \<lparr>
     checkConditionWhenQueued = False,
     columnCache = (\<lambda>t. if t = ''users''
                          then Some \<lparr>cs_include = None, cs_exclude = Some [''password'']\<rparr> else None),
     tableCache = [''users'' \<mapsto> [Some (VInt 5) \<mapsto> ex_cached5]],
     tableInfo = [''users'' \<mapsto> ex_info],
     usedTables = {''users''},
     liveQueries = [(1, ex_query)],
     queuedUpdates = {},
     trace = [],
     thrown = None\<rparr>"

definition ex_row6 :: row where
  "ex_row6 = [(''id'', VInt 6), (''profile'', VArr [VInt 1, VInt 2]), (''password'', VText ''pw'')]"

definition ex_row7 :: row where
  "ex_row7 = [(''id'', VInt 7), (''profile'', VArr [VInt 1, VInt 2]), (''password'', VText ''pw'')]"

text \<open>
  A leaf page with one cell at offset 10, as \<open>processWALFrame\<close> reads it: rowid 5,
  payload size 10, then \<open>id = 5\<close>, \<open>profile = '[1,2]'\<close>, \<open>password = 'pw'\<close>. The same
  page with rowids 6 and 7 in two cells, and its frames as \<open>parseWAL\<close> reads them.
\<close>

definition ex_payload :: "nat \<Rightarrow> buffer" where
  "ex_payload i = [of_nat i, 5, 0x5B, 0x31, 0x2C, 0x32, 0x5D, 2, 0x70, 0x77]"

definition ex_page :: buffer where
  "ex_page = [13, 0, 0, 0, 1, 0, 0, 0, 0, 10] @ [5, 10] @ ex_payload 5"

text \<open>The same cell written as the specification orders it: payload size 10, then rowid 5.\<close>

definition ex_spec_page :: buffer where
  "ex_spec_page = [13, 0, 0, 0, 1, 0, 0, 0, 0, 10] @ [10, 5] @ ex_payload 5"

definition ex_page2 :: buffer where
  "ex_page2 = [13, 0, 0, 0, 2, 0, 0, 0, 0, 12, 0, 24] @ [6, 10] @ ex_payload 6 @ [7, 10] @ ex_payload 7"

definition ex_wal :: buffer where
  "ex_wal = encode_frame (2, ex_page2)"

text \<open>The example state after the batch \<open>ex_wal\<close>.\<close>

definition ex_state' :: state where
  "ex_state' = applyChanges ex_env [(''users'', [(6, Some ex_row6), (7, Some ex_row7)])] ex_state"

text \<open>
  The page of rowids 6 and 7 in a frame laid out as the specification words it, with a
  page size of 512: a header of 24 bytes (page number 2, commit size 1, zero salts and
  checksums), then the page, padded with zeros.
\<close>

definition ex_spec_wal :: buffer where
  "ex_spec_wal = [0, 0, 0, 2, 0, 0, 0, 1] @ replicate 16 0 @ ex_page2 @ replicate (512 - length ex_page2) 0"

text \<open>
  The example with a statement that throws, and with no listener for the errors of the
  query.
\<close>

definition ex_env_failing :: env where
  "ex_env_failing = ex_env\<lparr>stmt_all := (\<lambda>q. Inl SqliteError)\<rparr>"

definition ex_state_unheard :: state where
  "ex_state_unheard = ex_state\<lparr>liveQueries := [(1, ex_query\<lparr>errorListener := False\<rparr>)]\<rparr>"

text \<open>
  A second table, \<open>players(id INTEGER PRIMARY KEY, name TEXT)\<close>, with two rows. The
  database names the rowid of such a table \<open>id\<close>, so the rows of the statement of
  \<open>cacheTable\<close> have the properties \<open>id\<close> and \<open>name\<close> and no property \<open>rowid\<close>.
\<close>

definition ex_players :: "row list" where
  "ex_players = [[(''id'', VInt 11), (''name'', VText ''Alice'')],
                 [(''id'', VInt 12), (''name'', VText ''Bob'')]]"

definition ex_env_players :: env where
  "ex_env_players = ex_env\<lparr>
     db_table_info := (\<lambda>t. [\<lparr>col_name = ''id'', col_type = ''INTEGER''\<rparr>,
                           \<lparr>col_name = ''name'', col_type = ''TEXT''\<rparr>]),
     db_select := (\<lambda>t cols. Inr ex_players)\<rparr>"

section \<open>Properties of the varint functions\<close>

lemma to_int32_id: "- (2^31) \<le> x \<Longrightarrow> x < 2^31 \<Longrightarrow> to_int32 x = x"
  by (simp add: to_int32_def)

lemma js_shl_small:
  assumes "0 \<le> g" "g * 2 ^ s < 2 ^ 31" "s < 32"
  shows "js_shl g s = g * 2 ^ s"
proof -
  have "g \<le> g * 2 ^ s" using assms(1) by (simp add: mult_le_cancel_left1)
  then have g: "to_int32 g = g" using assms by (intro to_int32_id) auto
  have "0 \<le> g * 2 ^ s" using assms(1) by simp
  then have "to_int32 (g * 2 ^ s) = g * 2 ^ s" using assms(2) by (intro to_int32_id) auto
  then show ?thesis using assms g by (simp add: js_shl_def push_bit_eq_mult)
qed

lemma js_or_disjoint:
  assumes "0 \<le> v" "v < 2 ^ k" "0 \<le> g" "v + g * 2 ^ k < 2 ^ 31"
  shows "js_or v (g * 2 ^ k) = v + g * 2 ^ k"
proof -
  have v: "take_bit k v = v" using assms by (simp add: take_bit_int_eq_self)
  have "take_bit k v AND push_bit k g = 0"
    by (rule bit_eqI) (auto simp add: bit_simps)
  then have "v + g * 2 ^ k = v OR g * 2 ^ k"
    using v by (simp add: disjunctive_add_eq_or push_bit_eq_mult)
  moreover have g0: "0 \<le> g * 2 ^ k" using assms by simp
  then have "v < 2 ^ 31" "- (2 ^ 31) \<le> g * 2 ^ k" "g * 2 ^ k < 2 ^ 31" using assms by linarith+
  then have "to_int32 v = v" "to_int32 (g * 2 ^ k) = g * 2 ^ k" using assms
    by (auto intro!: to_int32_id)
  ultimately show ?thesis by (simp add: js_or_def)
qed

lemma and_7f: "0 \<le> k \<Longrightarrow> (k::int) AND 0x7F = k mod 128"
proof -
  have "(0x7F::int) = mask 7" by (simp add: mask_eq_exp_minus_1)
  then have "k AND 0x7F = take_bit 7 k" by (simp add: take_bit_eq_mask)
  then show ?thesis by (simp add: take_bit_eq_mod)
qed

lemma and_80: 
  assumes "0 \<le> k" "k < 256"
  shows "((k::int) AND 0x80 = 0) \<longleftrightarrow> k < 128"
proof -
  have "(k AND 2 ^ 7 = 0) \<longleftrightarrow> \<not> bit k 7" by (rule and_exp_eq_0_iff_not_bit)
  moreover have "bit k 7 \<longleftrightarrow> odd (k div 2 ^ 7)" by (simp add: bit_iff_odd)
  moreover have "odd (k div 2 ^ 7) \<longleftrightarrow> \<not> k < 128"
  proof (cases "k < 128")
    case True then show ?thesis using assms by simp
  next
    case False 
    then have "k div 128 = 1" using assms by linarith
    then show ?thesis using False by simp
  qed
  ultimately show ?thesis by simp
qed

lemma uint_byte_of_nat: "w < 256 \<Longrightarrow> uint (of_nat w :: byte) = int w"
  by (simp add: uint_nat unat_of_nat)

lemma js_and_7f: "js_and (Some b) 0x7F = uint b mod 128"
  by (simp add: js_and_def and_7f)

lemma js_and_80: "(js_and (Some b) 0x80 = 0) \<longleftrightarrow> uint b < 128"
proof -
  have "uint b < 256" using uint_bounded [of b] by simp
  then show ?thesis by (simp add: js_and_def and_80)
qed

lemma buf_get_drop:
  assumes "drop n buf = b # rest"
  shows "buf_get buf (int n) = Some b"
proof -
  have "n < length buf" using assms by (cases "n < length buf") auto
  moreover from this have "buf ! n = hd (drop n buf)" by (simp add: hd_drop_conv_nth)
  ultimately show ?thesis using assms by (simp add: buf_get_def)
qed

lemma drop_Suc_tail:
  assumes "drop n buf = b # rest"
  shows "drop (Suc n) buf = rest"
proof -
  have "drop (Suc n) buf = tl (drop n buf)" by (simp add: drop_Suc tl_drop)
  then show ?thesis using assms by simp
qed

lemma shift_bound:
  assumes "int w * 2 ^ (7 * sz) < 2 ^ 31" "sz = 0 \<or> 0 < w"
  shows "sz \<le> 4"
proof (rule ccontr)
  assume "\<not> sz \<le> 4"
  then have sz: "5 \<le> sz" by simp
  then have w: "0 < w" using assms(2) by auto
  have "(2::int) ^ 35 \<le> 2 ^ (7 * sz)" using sz by (intro power_increasing) auto
  also have "\<dots> \<le> int w * 2 ^ (7 * sz)" using w by simp
  finally show False using assms(1) by simp
qed

lemma below_next_multiple:
  assumes "int w * 2 ^ (7 * sz) < 2 ^ 31" "sz \<le> 4" "0 \<le> v" "v < 2 ^ (7 * sz)"
  shows "v + int w * 2 ^ (7 * sz) < 2 ^ 31"
proof -
  let ?P = "(2::int) ^ (7 * sz)" and ?Q = "(2::int) ^ (31 - 7 * sz)"
  have PQ: "?Q * ?P = 2 ^ 31"
    using assms(2) by (simp add: power_add [symmetric])
  have "int w * ?P < ?Q * ?P" using assms(1) PQ by simp
  then have "int w < ?Q" by (simp add: mult_less_cancel_right)
  then have "int w + 1 \<le> ?Q" by linarith
  then have "(int w + 1) * ?P \<le> ?Q * ?P" by (intro mult_right_mono) auto
  moreover have "v + int w * ?P < (int w + 1) * ?P" using assms(4) by (simp add: algebra_simps)
  ultimately show ?thesis using PQ by simp
qed

lemma readVarint_loop_encode:
  assumes "int w * 2 ^ (7 * sz) < 2 ^ 31" "sz = 0 \<or> 0 < w" "0 \<le> val" "val < 2 ^ (7 * sz)"
    and "drop (k + sz) buf = encode_varint w @ post"
  shows "readVarint_loop buf (int k) val sz = val + int w * 2 ^ (7 * sz)"
  using assms
proof (induction w arbitrary: val sz rule: encode_varint.induct)
  case (1 w)
  have sz4: "sz \<le> 4" using "1.prems"(1,2) by (rule shift_bound)
  then have sz32: "7 * sz < 32" and sz8: "sz < 8" by simp_all
  let ?P = "(2::int) ^ (7 * sz)"
  let ?g = "int (w mod 128)"
  have g_le: "?g * ?P \<le> int w * ?P"
    by (intro mult_right_mono) (auto simp add: zmod_int [symmetric] simp del: zmod_int)
  have g_bound: "?g * ?P < 2 ^ 31" using g_le "1.prems"(1) by linarith
  have shl: "js_shl ?g (7 * sz) = ?g * ?P"
    using g_bound sz32 by (intro js_shl_small) auto
  have vw: "val + int w * ?P < 2 ^ 31"
    using "1.prems"(1) sz4 "1.prems"(3,4) by (rule below_next_multiple)
  then have "val + ?g * ?P < 2 ^ 31" using g_le by linarith
  then have or: "js_or val (?g * ?P) = val + ?g * ?P"
    using "1.prems"(3,4) by (intro js_or_disjoint) auto
  show ?case
  proof (cases "w < 128")
    case True
    then have enc: "encode_varint w = [of_nat w]" by (simp add: encode_varint.simps)
    then have get: "buf_get buf (int k + int sz) = Some (of_nat w)"
      using "1.prems"(5) buf_get_drop [of "k + sz" buf] by simp
    have u: "uint (of_nat w :: byte) = int w" using True by (simp add: uint_byte_of_nat)
    have m: "w mod 128 = w" using True by simp
    show ?thesis
      using True sz8 get u shl or m
      by (subst readVarint_loop.simps) (simp add: js_and_7f js_and_80 Let_def)
  next
    case False
    let ?b = "of_nat (128 + w mod 128) :: byte"
    have enc: "encode_varint w = ?b # encode_varint (w div 128)"
      using False by (subst encode_varint.simps) simp
    then have dr: "drop (k + sz) buf = ?b # (encode_varint (w div 128) @ post)"
      using "1.prems"(5) by simp
    then have get: "buf_get buf (int k + int sz) = Some ?b"
      using buf_get_drop [of "k + sz" buf] by simp
    have "128 + w mod 128 < 256" by simp
    then have "uint ?b = int (128 + w mod 128)" by (rule uint_byte_of_nat)
    then have u: "uint ?b = 128 + ?g" by simp
    have "(128 + ?g) mod 128 = ?g" by simp
    with u js_and_7f [of ?b] have a7: "js_and (Some ?b) 0x7F = ?g" by simp
    have "\<not> uint ?b < 128" using u by simp
    with js_and_80 [of ?b] have a8: "js_and (Some ?b) 0x80 \<noteq> 0" by blast
    let ?v = "val + ?g * ?P"
    have dr': "drop (k + (sz + 1)) buf = encode_varint (w div 128) @ post"
      using drop_Suc_tail [OF dr] by simp
    have wd: "int w = int (w div 128) * 128 + ?g"
      by (simp add: zdiv_int zmod_int)
    have P': "(2::int) ^ (7 * (sz + 1)) = 128 * ?P" by (simp add: power_add)
    have p1: "int (w div 128) * 2 ^ (7 * (sz + 1)) < 2 ^ 31"
    proof -
      have "int (w div 128) * 128 \<le> int w" using wd by linarith
      then have "int (w div 128) * 128 * ?P \<le> int w * ?P"
        by (intro mult_right_mono) auto
      then have "int (w div 128) * (128 * ?P) \<le> int w * ?P"
        by (simp only: mult.assoc)
      then have "int (w div 128) * (128 * ?P) < 2 ^ 31"
        using "1.prems"(1) by linarith
      then show ?thesis by (simp only: P')
    qed
    have p2: "sz + 1 = 0 \<or> 0 < w div 128" using False by (simp add: div_greater_zero_iff)
    have p3: "0 \<le> ?v" using "1.prems"(3) by simp
    have p4: "?v < 2 ^ (7 * (sz + 1))"
    proof -
      have "?g \<le> 127" by simp
      then have "?g * ?P \<le> 127 * ?P" by (intro mult_right_mono) auto
      then have "?v < 128 * ?P" using "1.prems"(4) by linarith
      then show ?thesis by (simp only: P')
    qed
    have IH: "readVarint_loop buf (int k) ?v (sz + 1) = ?v + int (w div 128) * 2 ^ (7 * (sz + 1))"
      using "1.IH" [OF False p1 p2 p3 p4 dr'] .
    have fin: "?v + int (w div 128) * 2 ^ (7 * (sz + 1)) = val + int w * ?P"
      using wd P' by (simp add: algebra_simps)
    have "readVarint_loop buf (int k) val sz = readVarint_loop buf (int k) ?v (sz + 1)"
      using sz8 get a7 a8 shl or
      by (subst readVarint_loop.simps) (simp add: Let_def)
    then show ?thesis using IH fin by simp
  qed
qed

lemma readVarint_encode:
  assumes "v < 2 ^ 31"
  shows "readVarint (pre @ encode_varint v @ post) (int (length pre)) = int v"
proof -
  have "int v < 2 ^ 31" using assms by (metis of_nat_less_numeral_power_cancel_iff)
  then have "readVarint_loop (pre @ encode_varint v @ post) (int (length pre)) 0 0 = 0 + int v * 2 ^ (7 * 0)"
    by (intro readVarint_loop_encode [where post = post]) auto
  then show ?thesis by (simp add: readVarint_def)
qed

lemma getVarintSize_loop_encode:
  assumes "drop (k + sz) buf = encode_varint w @ post" "sz + length (encode_varint w) \<le> 9"
  shows "getVarintSize_loop buf (int k) sz = sz + length (encode_varint w)"
  using assms
proof (induction w arbitrary: sz rule: encode_varint.induct)
  case (1 w)
  show ?case
  proof (cases "w < 128")
    case True
    then have enc: "encode_varint w = [of_nat w]" by (simp add: encode_varint.simps)
    then have get: "buf_get buf (int k + int sz) = Some (of_nat w)"
      using "1.prems"(1) buf_get_drop [of "k + sz" buf] by simp
    have "uint (of_nat w :: byte) < 128" using True by (simp add: uint_byte_of_nat)
    then have "js_and (Some (of_nat w)) 0x80 = 0" by (simp only: js_and_80)
    then show ?thesis using get enc
      by (subst getVarintSize_loop.simps) simp
  next
    case False
    let ?b = "of_nat (128 + w mod 128) :: byte"
    have enc: "encode_varint w = ?b # encode_varint (w div 128)"
      using False by (subst encode_varint.simps) simp
    then have dr: "drop (k + sz) buf = ?b # (encode_varint (w div 128) @ post)"
      using "1.prems"(1) by simp
    then have get: "buf_get buf (int k + int sz) = Some ?b"
      using buf_get_drop [of "k + sz" buf] by simp
    have "128 + w mod 128 < 256" by simp
    then have "uint ?b = int (128 + w mod 128)" by (rule uint_byte_of_nat)
    then have "\<not> uint ?b < 128" by simp
    with js_and_80 [of ?b] have a8: "js_and (Some ?b) 0x80 \<noteq> 0" by blast
    have ne: "encode_varint (w div 128) \<noteq> []" by (subst encode_varint.simps) simp
    then have pos: "0 < length (encode_varint (w div 128))" by simp
    have len: "length (encode_varint w) = Suc (length (encode_varint (w div 128)))"
      by (subst enc) simp
    have sz8: "sz < 8" using "1.prems"(2) pos len by linarith
    have dr': "drop (k + (sz + 1)) buf = encode_varint (w div 128) @ post"
      using drop_Suc_tail [OF dr] by simp
    have le: "sz + 1 + length (encode_varint (w div 128)) \<le> 9" using "1.prems"(2) len by linarith
    have "getVarintSize_loop buf (int k) (sz + 1) = sz + 1 + length (encode_varint (w div 128))"
      using "1.IH" [OF False dr' le] .
    moreover have "getVarintSize_loop buf (int k) sz = getVarintSize_loop buf (int k) (sz + 1)"
      using sz8 get a8 by (subst getVarintSize_loop.simps) simp
    ultimately show ?thesis using len by simp
  qed
qed

lemma length_encode_varint:
  assumes "v < 128 ^ n" "0 < n"
  shows "length (encode_varint v) \<le> n"
  using assms
proof (induction v arbitrary: n rule: encode_varint.induct)
  case (1 v)
  show ?case
  proof (cases "v < 128")
    case True
    then show ?thesis using "1.prems"(2) by (simp add: encode_varint.simps)
  next
    case False
    then obtain m where n: "n = Suc m" using "1.prems"(2) by (cases n) auto
    have m: "0 < m" using False "1.prems"(1) n by (cases m) auto
    have "v div 128 < 128 ^ m" using "1.prems"(1) n by (simp add: less_mult_imp_div_less mult.commute)
    then have "length (encode_varint (v div 128)) \<le> m" using "1.IH" [OF False _ m] by simp
    then show ?thesis using False n by (subst encode_varint.simps) simp
  qed
qed

lemma getVarintSize_encode:
  assumes "v < 2 ^ 31"
  shows "getVarintSize (pre @ encode_varint v @ post) (int (length pre)) = length (encode_varint v)"
    and "length (encode_varint v) \<le> 5"
proof -
  have "v < 128 ^ 5" using assms by simp
  then show le: "length (encode_varint v) \<le> 5" by (intro length_encode_varint) auto
  then have "getVarintSize_loop (pre @ encode_varint v @ post) (int (length pre)) 0 = 0 + length (encode_varint v)"
    by (intro getVarintSize_loop_encode [where post = post]) auto
  then show "getVarintSize (pre @ encode_varint v @ post) (int (length pre)) = length (encode_varint v)"
    by (simp add: getVarintSize_def)
qed

lemma js_or_zero: "0 \<le> v \<Longrightarrow> v < 2 ^ 31 \<Longrightarrow> js_or v 0 = v"
  by (simp add: js_or_def to_int32_id)

lemma buf_get_drop_Nil:
  assumes "drop n buf = []"
  shows "buf_get buf (int n) = None"
  using assms by (simp add: buf_get_def)

lemma readVarint_loop_truncated:
  assumes "int w * 2 ^ (7 * sz) < 2 ^ 31" "sz = 0 \<or> 0 < w" "0 \<le> val" "val < 2 ^ (7 * sz)"
    and "drop (k + sz) buf = take j (encode_varint w)" "j < length (encode_varint w)"
  shows "readVarint_loop buf (int k) val sz = val + int (w mod 128 ^ j) * 2 ^ (7 * sz)"
  using assms
proof (induction w arbitrary: val sz j rule: encode_varint.induct)
  case (1 w)
  have sz4: "sz \<le> 4" using "1.prems"(1,2) by (rule shift_bound)
  then have sz32: "7 * sz < 32" and sz8: "sz < 8" by simp_all
  let ?P = "(2::int) ^ (7 * sz)"
  let ?g = "int (w mod 128)"
  have vw: "val + int w * ?P < 2 ^ 31"
    using "1.prems"(1) sz4 "1.prems"(3,4) by (rule below_next_multiple)
  have w0: "0 \<le> int w * ?P" by simp
  then have v31: "val < 2 ^ 31" using vw by linarith
  show ?case
  proof (cases j)
    case 0
    then have get: "buf_get buf (int k + int sz) = None"
      using "1.prems"(5) buf_get_drop_Nil [of "k + sz" buf] by simp
    have shl0: "js_shl 0 (7 * sz) = 0" using js_shl_small [of 0 "7 * sz"] sz32 by simp
    have or0: "js_or val 0 = val" using "1.prems"(3) v31 by (rule js_or_zero)
    show ?thesis
      using 0 sz8 get shl0 or0
      by (subst readVarint_loop.simps) (simp add: js_and_def Let_def)
  next
    case (Suc j')
    have big: "\<not> w < 128"
    proof
      assume "w < 128"
      then have "encode_varint w = [of_nat w]" by (simp add: encode_varint.simps)
      then show False using "1.prems"(6) Suc by simp
    qed
    have g_le: "?g * ?P \<le> int w * ?P"
      by (intro mult_right_mono) (auto simp add: zmod_int [symmetric] simp del: zmod_int)
    have g_bound: "?g * ?P < 2 ^ 31" using g_le "1.prems"(1) by linarith
    have shl: "js_shl ?g (7 * sz) = ?g * ?P"
      using g_bound sz32 by (intro js_shl_small) auto
    have "val + ?g * ?P < 2 ^ 31" using g_le vw by linarith
    then have or: "js_or val (?g * ?P) = val + ?g * ?P"
      using "1.prems"(3,4) by (intro js_or_disjoint) auto
    let ?b = "of_nat (128 + w mod 128) :: byte"
    have enc: "encode_varint w = ?b # encode_varint (w div 128)"
      using big by (subst encode_varint.simps) simp
    then have dr: "drop (k + sz) buf = ?b # take j' (encode_varint (w div 128))"
      using "1.prems"(5) Suc by simp
    then have get: "buf_get buf (int k + int sz) = Some ?b"
      using buf_get_drop [of "k + sz" buf] by simp
    have j': "j' < length (encode_varint (w div 128))"
      using "1.prems"(6) Suc enc by simp
    have "128 + w mod 128 < 256" by simp
    then have "uint ?b = int (128 + w mod 128)" by (rule uint_byte_of_nat)
    then have u: "uint ?b = 128 + ?g" by simp
    have "(128 + ?g) mod 128 = ?g" by simp
    with u js_and_7f [of ?b] have a7: "js_and (Some ?b) 0x7F = ?g" by simp
    have "\<not> uint ?b < 128" using u by simp
    with js_and_80 [of ?b] have a8: "js_and (Some ?b) 0x80 \<noteq> 0" by blast
    let ?v = "val + ?g * ?P"
    have dr': "drop (k + (sz + 1)) buf = take j' (encode_varint (w div 128))"
      using drop_Suc_tail [OF dr] by simp
    have wd: "int w = int (w div 128) * 128 + ?g"
      by (simp add: zdiv_int zmod_int)
    have P': "(2::int) ^ (7 * (sz + 1)) = 128 * ?P" by (simp add: power_add)
    have p1: "int (w div 128) * 2 ^ (7 * (sz + 1)) < 2 ^ 31"
    proof -
      have "int (w div 128) * 128 \<le> int w" using wd by linarith
      then have "int (w div 128) * 128 * ?P \<le> int w * ?P"
        by (intro mult_right_mono) auto
      then have "int (w div 128) * (128 * ?P) \<le> int w * ?P"
        by (simp only: mult.assoc)
      then have "int (w div 128) * (128 * ?P) < 2 ^ 31"
        using "1.prems"(1) by linarith
      then show ?thesis by (simp only: P')
    qed
    have p2: "sz + 1 = 0 \<or> 0 < w div 128" using big by (simp add: div_greater_zero_iff)
    have p3: "0 \<le> ?v" using "1.prems"(3) by simp
    have p4: "?v < 2 ^ (7 * (sz + 1))"
    proof -
      have "?g \<le> 127" by simp
      then have "?g * ?P \<le> 127 * ?P" by (intro mult_right_mono) auto
      then have "?v < 128 * ?P" using "1.prems"(4) by linarith
      then show ?thesis by (simp only: P')
    qed
    have IH: "readVarint_loop buf (int k) ?v (sz + 1)
                = ?v + int (w div 128 mod 128 ^ j') * 2 ^ (7 * (sz + 1))"
      using "1.IH" [OF big p1 p2 p3 p4 dr' j'] .
    have "w mod (128 * 128 ^ j') = 128 * (w div 128 mod 128 ^ j') + w mod 128"
      by (rule mod_mult2_eq)
    then have m: "int (w mod 128 ^ j) = 128 * int (w div 128 mod 128 ^ j') + ?g"
      using Suc by simp
    have fin: "?v + int (w div 128 mod 128 ^ j') * 2 ^ (7 * (sz + 1))
                 = val + int (w mod 128 ^ j) * ?P"
      unfolding m P' by (simp add: algebra_simps)
    have "readVarint_loop buf (int k) val sz = readVarint_loop buf (int k) ?v (sz + 1)"
      using sz8 get a7 a8 shl or
      by (subst readVarint_loop.simps) (simp add: Let_def)
    then show ?thesis using IH fin by simp
  qed
qed

lemma getVarintSize_loop_truncated:
  assumes "drop (k + sz) buf = take j (encode_varint w)" "j < length (encode_varint w)"
    and "sz + j \<le> 8"
  shows "getVarintSize_loop buf (int k) sz = sz + j + 1"
  using assms
proof (induction w arbitrary: sz j rule: encode_varint.induct)
  case (1 w)
  show ?case
  proof (cases j)
    case 0
    then have get: "buf_get buf (int k + int sz) = None"
      using "1.prems"(1) buf_get_drop_Nil [of "k + sz" buf] by simp
    show ?thesis using 0 get
      by (subst getVarintSize_loop.simps) (simp add: js_and_def)
  next
    case (Suc j')
    have big: "\<not> w < 128"
    proof
      assume "w < 128"
      then have "encode_varint w = [of_nat w]" by (simp add: encode_varint.simps)
      then show False using "1.prems"(2) Suc by simp
    qed
    let ?b = "of_nat (128 + w mod 128) :: byte"
    have enc: "encode_varint w = ?b # encode_varint (w div 128)"
      using big by (subst encode_varint.simps) simp
    then have dr: "drop (k + sz) buf = ?b # take j' (encode_varint (w div 128))"
      using "1.prems"(1) Suc by simp
    then have get: "buf_get buf (int k + int sz) = Some ?b"
      using buf_get_drop [of "k + sz" buf] by simp
    have j': "j' < length (encode_varint (w div 128))"
      using "1.prems"(2) Suc enc by simp
    have "128 + w mod 128 < 256" by simp
    then have "uint ?b = int (128 + w mod 128)" by (rule uint_byte_of_nat)
    then have "\<not> uint ?b < 128" by simp
    with js_and_80 [of ?b] have a8: "js_and (Some ?b) 0x80 \<noteq> 0" by blast
    have sz8: "sz < 8" using "1.prems"(3) Suc by simp
    have dr': "drop (k + (sz + 1)) buf = take j' (encode_varint (w div 128))"
      using drop_Suc_tail [OF dr] by simp
    have le: "sz + 1 + j' \<le> 8" using "1.prems"(3) Suc by simp
    have "getVarintSize_loop buf (int k) (sz + 1) = sz + 1 + j' + 1"
      using "1.IH" [OF big dr' j' le] .
    moreover have "getVarintSize_loop buf (int k) sz = getVarintSize_loop buf (int k) (sz + 1)"
      using sz8 get a8 by (subst getVarintSize_loop.simps) simp
    ultimately show ?thesis using Suc by simp
  qed
qed

lemma readVarint_take:
  assumes "v < 2 ^ 31" "j < length (encode_varint v)"
  shows "readVarint (pre @ take j (encode_varint v)) (int (length pre)) = int (v mod 128 ^ j)"
    and "getVarintSize (pre @ take j (encode_varint v)) (int (length pre)) = j + 1"
proof -
  have "int v < 2 ^ 31" using assms(1) by (metis of_nat_less_numeral_power_cancel_iff)
  then have "readVarint_loop (pre @ take j (encode_varint v)) (int (length pre)) 0 0
               = 0 + int (v mod 128 ^ j) * 2 ^ (7 * 0)"
    using assms(2) by (intro readVarint_loop_truncated) auto
  then show "readVarint (pre @ take j (encode_varint v)) (int (length pre)) = int (v mod 128 ^ j)"
    by (simp add: readVarint_def)
  have "length (encode_varint v) \<le> 5" using assms(1) by (rule getVarintSize_encode(2))
  then have "0 + j \<le> 8" using assms(2) by simp
  have "getVarintSize_loop (pre @ take j (encode_varint v)) (int (length pre)) 0 = 0 + j + 1"
    using assms(2) \<open>0 + j \<le> 8\<close> by (intro getVarintSize_loop_truncated) auto
  then show "getVarintSize (pre @ take j (encode_varint v)) (int (length pre)) = j + 1"
    by (simp add: getVarintSize_def)
qed

text \<open>
  The two functions do not read the same number of bytes: on eight bytes with the top bit
  set and a ninth byte, \<open>getVarintSize\<close> counts nine bytes and \<open>readVarint\<close> stops after
  eight, where the specified read takes the ninth byte.
\<close>

lemma readVarint_eight_bytes:
  "spec_readVarint (replicate 8 0x80 @ [1]) 0 = Inr (2 ^ 56, 9)
   \<and> (readVarint (replicate 8 0x80 @ [1]) 0, getVarintSize (replicate 8 0x80 @ [1]) 0) = (0, 9)"
  by code_simp

text \<open>
  Claim C4, as the code has it. For every number below \<open>2 ^ 31\<close>, written as groups of
  seven bits, least significant group first, with the top bit set on every byte but the
  last (at most five bytes), \<open>readVarint\<close> returns the number and \<open>getVarintSize\<close>, a
  separate operation, the number of bytes. \<open>readVarint\<close> returns the value alone. When the
  buffer ends before the varint does, after any number \<open>j\<close> of its bytes, nothing fails:
  the missing byte reads as zero and ends the varint, so \<open>readVarint\<close> returns the bits
  read so far, which are the number modulo \<open>128 ^ j\<close>, and \<open>getVarintSize\<close> counts the
  missing byte, \<open>j + 1\<close>.
\<close>

theorem readVarint_encode_varint:
  assumes "v < 2 ^ 31"
  shows "readVarint (pre @ encode_varint v @ post) (int (length pre)) = int v
       \<and> getVarintSize (pre @ encode_varint v @ post) (int (length pre)) = length (encode_varint v)
       \<and> length (encode_varint v) \<le> 5
       \<and> (\<forall>j < length (encode_varint v).
            readVarint (pre @ take j (encode_varint v)) (int (length pre)) = int (v mod 128 ^ j)
            \<and> getVarintSize (pre @ take j (encode_varint v)) (int (length pre)) = j + 1)"
  using readVarint_encode [OF assms, of pre post] getVarintSize_encode(1) [OF assms, of pre post]
    getVarintSize_encode(2) [OF assms] readVarint_take [OF assms, of _ pre]
  by simp

text \<open>
  The number 300 at offset 2, its first byte alone at the end of a buffer, and a buffer
  that ends at the offset.
\<close>

theorem readVarint_encode_varint_witness:
  "(300::nat) < 2 ^ 31 \<and> encode_varint 300 = [0xAC, 0x02]
   \<and> readVarint ([7, 7] @ [0xAC, 0x02] @ [9]) 2 = 300
   \<and> getVarintSize ([7, 7] @ [0xAC, 0x02] @ [9]) 2 = 2
   \<and> readVarint ([7, 7] @ [0xAC]) 2 = 44
   \<and> getVarintSize ([7, 7] @ [0xAC]) 2 = 2
   \<and> readVarint [7, 7] 2 = 0
   \<and> getVarintSize [7, 7] 2 = 1"
proof -
  have h: "(300::nat) < 2 ^ 31" by simp
  have e: "encode_varint 300 = [0xAC, 0x02]" by code_simp
  have t: "take (Suc 0) [0xAC, 0x02::byte] = [0xAC]" "take 0 [0xAC, 0x02::byte] = []" by simp_all
  have a: "\<forall>j<2. readVarint ([7, 7] @ take j [0xAC, 0x02]) 2 = int (300 mod 128 ^ j)
            \<and> getVarintSize ([7, 7] @ take j [0xAC, 0x02]) 2 = j + 1"
    using readVarint_encode_varint [OF h, of "[7, 7]" "[9]"] by (simp add: e)
  have "readVarint ([7, 7] @ [0xAC]) 2 = 44 \<and> getVarintSize ([7, 7] @ [0xAC]) 2 = 2"
    using a [THEN spec, of "Suc 0"] by simp
  moreover have "readVarint [7, 7] 2 = 0 \<and> getVarintSize [7, 7] 2 = 1"
    using a [THEN spec, of 0] by simp
  ultimately show ?thesis
    using h e readVarint_encode_varint [OF h, of "[7, 7]" "[9]"] by simp
qed

text \<open>
  Claim C4 as stated fails. On the buffer of the single byte \<open>0x80\<close> the specified read
  fails with \<open>CorruptFrame\<close> and the code returns 0 (of size 2).
\<close>

theorem readVarint_counterexample:
  "spec_readVarint [0x80] 0 = Inl CorruptFrame
   \<and> (readVarint [0x80] 0, getVarintSize [0x80] 0) = (0, 2)"
  by code_simp

section \<open>The frames of the log\<close>

lemma unat_byte_of_nat: "unat (of_nat n :: byte) = n mod 256"
  by (simp add: unat_of_nat)

lemma le32_value:
  fixes n :: nat
  assumes "n < 4294967296"
  shows "n mod 256 + n div 256 mod 256 * 256 + n div 65536 mod 256 * 65536
           + n div 16777216 mod 256 * 16777216 = n"
proof -
  have q1: "n = n mod 256 + n div 256 * 256" by simp
  have "n div 65536 = n div 256 div 256" by (simp add: div_mult2_eq [symmetric])
  then have q2: "n div 256 = n div 256 mod 256 + n div 65536 * 256" by simp
  have "n div 16777216 = n div 65536 div 256" by (simp add: div_mult2_eq [symmetric])
  then have q3: "n div 65536 = n div 65536 mod 256 + n div 16777216 * 256" by simp
  have "n div 16777216 < 256" using assms by simp
  then have q4: "n div 16777216 mod 256 = n div 16777216" by simp
  show ?thesis using q1 q2 q3 q4 by linarith
qed

lemma length_le32: "length (le32 n) = 4"
  by (simp add: le32_def)

lemma readUInt32LE_le32:
  assumes "n < 2 ^ 32"
  shows "readUInt32LE (pre @ le32 n @ post) (length pre) = Inr n"
proof -
  have n: "n < 4294967296" using assms by simp
  have "readUInt32LE (pre @ le32 n @ post) (length pre)
          = Inr (n mod 256 + n div 256 mod 256 * 256 + n div 65536 mod 256 * 65536
                  + n div 16777216 mod 256 * 16777216)"
    by (simp add: readUInt32LE_def le32_def nth_append unat_byte_of_nat)
  then show ?thesis by (simp only: le32_value [OF n])
qed

lemma adjustOffset_nat: "adjustOffset (int a) len = min a len"
  by (simp add: adjustOffset_def)

lemma js_slice_middle:
  "js_slice (pre @ d @ post) (int (length pre)) (int (length pre + length d)) = d"
proof -
  let ?L = "length (pre @ d @ post)"
  have a: "adjustOffset (int (length pre)) ?L = length pre"
    by (simp only: adjustOffset_nat) simp
  have b: "adjustOffset (int (length pre + length d)) ?L = length pre + length d"
    by (simp only: adjustOffset_nat) simp
  show ?thesis
    unfolding js_slice_def Let_def a b by simp
qed

lemma parseWAL_loop_encode_frames:
  assumes "\<forall>f\<in>set fs. fst f < 2 ^ 32 \<and> 8 + length (snd f) < 2 ^ 32"
  shows "parseWAL_loop E st (pre @ concat (map encode_frame fs)) (length pre) changes
           = process_frames E st fs changes"
  using assms
proof (induction fs arbitrary: pre changes)
  case Nil
  show ?case by (subst parseWAL_loop.simps) simp
next
  case (Cons f fs)
  obtain pn d where f: "f = (pn, d)" by (cases f)
  let ?rest = "concat (map encode_frame fs)"
  let ?buf = "pre @ concat (map encode_frame (f # fs))"
  have pn: "pn < 2 ^ 32" and len: "8 + length d < 2 ^ 32" using Cons.prems f by auto
  have buf1: "?buf = pre @ le32 (8 + length d) @ (le32 pn @ d @ ?rest)"
    by (simp add: f encode_frame_def)
  have buf2: "?buf = (pre @ le32 (8 + length d)) @ le32 pn @ (d @ ?rest)"
    by (simp add: f encode_frame_def)
  have buf3: "?buf = (pre @ le32 (8 + length d) @ le32 pn) @ d @ ?rest"
    by (simp add: f encode_frame_def)
  have buf4: "?buf = (pre @ encode_frame f) @ ?rest"
    by simp
  have lt: "length pre < length ?buf" by (simp add: f encode_frame_def length_le32)
  have r1: "readUInt32LE ?buf (length pre) = Inr (8 + length d)"
    by (subst buf1) (rule readUInt32LE_le32 [OF len])
  have "readUInt32LE ?buf (length (pre @ le32 (8 + length d))) = Inr pn"
    by (subst buf2) (rule readUInt32LE_le32 [OF pn])
  then have r2: "readUInt32LE ?buf (length pre + 4) = Inr pn" by (simp add: length_le32)
  have "js_slice ?buf (int (length (pre @ le32 (8 + length d) @ le32 pn)))
           (int (length (pre @ le32 (8 + length d) @ le32 pn) + length d)) = d"
    by (subst buf3) (rule js_slice_middle)
  then have sl: "js_slice ?buf (int (length pre + 8)) (int (length pre + (8 + length d))) = d"
    by (simp add: length_le32 add.assoc)
  have next_off: "length pre + (8 + length d) = length (pre @ encode_frame f)"
    by (simp add: f encode_frame_def length_le32)
  have IH: "\<And>c. parseWAL_loop E st ?buf (length (pre @ encode_frame f)) c = process_frames E st fs c"
    using Cons.IH [of "pre @ encode_frame f"] Cons.prems by (subst buf4) simp
  show ?case
  proof (cases "processWALFrame E st pn d changes")
    case (Inl e)
    then show ?thesis using lt r1 r2 sl
      by (subst parseWAL_loop.simps) (simp add: f)
  next
    case (Inr c)
    then show ?thesis using lt r1 r2 sl IH [of c] next_off
      by (subst parseWAL_loop.simps) (simp add: f)
  qed
qed

section \<open>The running example, evaluated\<close>

lemmas js_eval = readVarint_def getVarintSize_def buf_get_def js_and_def js_or_def js_shl_def
  to_int32_def Let_def js_slice_def adjustOffset_def buf_toString_def char_of_def bit_Suc_0_iff
lemmas row_eval = parseRowData_def parseValue_def getValueSize_def
lemmas ex_world = ex_env_def ex_state_def ex_info_def

lemma ex_parseRowData:
  "parseRowData ex_env ex_state ''users'' (ex_payload 5)
     = Inr [(''id'', VInt 5), (''profile'', VArr [VInt 1, VInt 2]), (''password'', VText ''pw'')]"
  "parseRowData ex_env ex_state ''users'' (ex_payload 6) = Inr ex_row6"
  "parseRowData ex_env ex_state ''users'' (ex_payload 7) = Inr ex_row7"
  by (simp_all add: ex_world ex_payload_def ex_row6_def ex_row7_def js_eval row_eval)

lemma ex_page2_slices:
  "readVarint (ex_page2 @ pad) 12 = 6" "getVarintSize (ex_page2 @ pad) 12 = 1"
  "readVarint (ex_page2 @ pad) 13 = 10" "getVarintSize (ex_page2 @ pad) 13 = 1"
  "js_slice (ex_page2 @ pad) 14 24 = ex_payload 6"
  "readVarint (ex_page2 @ pad) 24 = 7" "getVarintSize (ex_page2 @ pad) 24 = 1"
  "readVarint (ex_page2 @ pad) 25 = 10" "getVarintSize (ex_page2 @ pad) 25 = 1"
  "js_slice (ex_page2 @ pad) 26 36 = ex_payload 7"
  by (simp_all add: ex_page2_def ex_payload_def js_eval nth_append)

lemma ex_decode_cell2:
  "decode_cell ex_env ex_state ''users'' (ex_page2 @ pad) 12 = Inr (6, ex_row6)"
  "decode_cell ex_env ex_state ''users'' (ex_page2 @ pad) 24 = Inr (7, ex_row7)"
  by (simp_all add: decode_cell_def ex_page2_slices ex_parseRowData)

lemma ex_page2_header:
  "readUInt8 (ex_page2 @ pad) 0 = Inr 13" "readUInt16BE (ex_page2 @ pad) 3 = Inr 2"
  "readUInt16BE (ex_page2 @ pad) 8 = Inr 12" "readUInt16BE (ex_page2 @ pad) 10 = Inr 24"
  by (simp_all add: ex_page2_def readUInt8_def readUInt16BE_def nth_append)

lemma ex_changes_set:
  "changes_set ''users'' 7 ex_row7 (changes_set ''users'' 6 ex_row6 [])
     = [(''users'', [(6, Some ex_row6), (7, Some ex_row7)])]"
  by (simp add: changes_set_def)

lemma ex_processWALFrame_padded:
  "processWALFrame ex_env ex_state 2 (ex_page2 @ pad) []
     = Inr [(''users'', [(6, Some ex_row6), (7, Some ex_row7)])]"
proof -
  have m: "sqlite_master ex_env 2 = Some ''users''" "''users'' \<in> usedTables ex_state"
    by (simp_all add: ex_world)
  have "cells_loop ex_env ex_state ''users'' (ex_page2 @ pad) (Suc (Suc 0)) 8 []
          = Inr [(''users'', [(6, Some ex_row6), (7, Some ex_row7)])]"
    by (simp add: ex_page2_header ex_decode_cell2 ex_changes_set)
  then have "cells_loop ex_env ex_state ''users'' (ex_page2 @ pad) 2 8 []
          = Inr [(''users'', [(6, Some ex_row6), (7, Some ex_row7)])]"
    by (simp only: numeral_2_eq_2)
  then show ?thesis
    by (simp add: processWALFrame_def ex_page2_header m)
qed

lemma ex_processWALFrame:
  "processWALFrame ex_env ex_state 2 ex_page2 []
     = Inr [(''users'', [(6, Some ex_row6), (7, Some ex_row7)])]"
  using ex_processWALFrame_padded [of "[]"] by simp

lemma ex_parseWAL_loop:
  "parseWAL_loop ex_env ex_state ex_wal 0 [] = Inr [(''users'', [(6, Some ex_row6), (7, Some ex_row7)])]"
proof -
  have "\<forall>f\<in>set [(2::nat, ex_page2)]. fst f < 2 ^ 32 \<and> 8 + length (snd f) < 2 ^ 32"
    by (simp add: ex_page2_def ex_payload_def)
  from parseWAL_loop_encode_frames [OF this, of ex_env ex_state "[]" "[]"]
  show ?thesis by (simp add: ex_wal_def ex_processWALFrame)
qed

lemmas apply_eval = applyChanges_def apply_table_def apply_row_def cache_set_def cache_delete_def
  notifyQueries_def notify_query_def needsUpdate_def invalidate_def execute_def
  diffResults_def map_keySelector_def changed_row_def join_element_def

lemma ex_trace:
  "trace ex_state' =
     [CacheSet ''users'' 6 ex_row6, Notify ''users'' None (Some ex_row6) False, Invalidate 1,
      Emit 1 (Update \<lparr>added = [], changed = [ex_row5'], removed = []\<rparr> [ex_row5']),
      CacheSet ''users'' 7 ex_row7, Notify ''users'' None (Some ex_row7) False]"
  by (simp add: ex_state'_def apply_eval ex_env_def ex_state_def ex_query_def ex_row5_def ex_row5'_def ex_row6_def ex_row7_def ex_cached5_def)

lemma ex_cache:
  "the (tableCache ex_state' ''users'') (Some (VInt 5)) = Some ex_cached5"
  "queuedUpdates ex_state' = {1}"
  by (simp_all add: ex_state'_def apply_eval ex_env_def ex_state_def ex_query_def ex_row5_def ex_row5'_def ex_row6_def ex_row7_def ex_cached5_def)

lemmas ex_rows = ex_row5_def ex_row5'_def ex_row6_def ex_row7_def ex_cached5_def

lemma ex_thrown: "thrown ex_state' = None"
  by (simp add: ex_state'_def apply_eval ex_env_def ex_state_def ex_query_def ex_rows)

lemma ex_parseWAL: "parseWAL ex_env ex_state ex_wal = Inr ex_state'"
  by (simp add: parseWAL_def ex_parseWAL_loop ex_state'_def [symmetric] ex_thrown)

text \<open>
  When the statement of the query throws, a listener for its errors receives the error
  and the batch goes on; with no listener the error leaves \<open>applyChanges\<close> after the first
  write, and the second row is not written.
\<close>

lemma ex_applyChanges_error:
  "trace (applyChanges ex_env_failing [(''users'', [(6, Some ex_row6), (7, Some ex_row7)])] ex_state)
     = [CacheSet ''users'' 6 ex_row6, Notify ''users'' None (Some ex_row6) False, Invalidate 1,
        Emit 1 (Error SqliteError),
        CacheSet ''users'' 7 ex_row7, Notify ''users'' None (Some ex_row7) False]"
  "thrown (applyChanges ex_env_failing [(''users'', [(6, Some ex_row6), (7, Some ex_row7)])] ex_state)
     = None"
  by (simp_all add: apply_eval ex_env_failing_def ex_env_def ex_state_def ex_query_def ex_rows)

lemma ex_applyChanges_thrown:
  "trace (applyChanges ex_env_failing [(''users'', [(6, Some ex_row6), (7, Some ex_row7)])] ex_state_unheard)
     = [CacheSet ''users'' 6 ex_row6, Notify ''users'' None (Some ex_row6) False, Invalidate 1]"
  "thrown (applyChanges ex_env_failing [(''users'', [(6, Some ex_row6), (7, Some ex_row7)])] ex_state_unheard)
     = Some SqliteError"
  "the (tableCache (applyChanges ex_env_failing [(''users'', [(6, Some ex_row6), (7, Some ex_row7)])]
          ex_state_unheard) ''users'') (Some (VInt 7)) = None"
  by (simp_all add: apply_eval ex_env_failing_def ex_state_unheard_def ex_env_def ex_state_def
      ex_query_def ex_rows)

text \<open>The example state is the initial state after \<open>ensureTableCached('users')\<close>.\<close>

lemma ex_state_cached:
  "snd (ensureTableCached ex_env ''users'' ex_state0) = None"
  "tableCache (fst (ensureTableCached ex_env ''users'' ex_state0)) ''users'' = tableCache ex_state ''users''"
  "tableInfo (fst (ensureTableCached ex_env ''users'' ex_state0)) ''users'' = tableInfo ex_state ''users''"
  "usedTables (fst (ensureTableCached ex_env ''users'' ex_state0)) = usedTables ex_state"
  by (simp_all add: ensureTableCached_def cacheTable_def cacheTableInfo_def cached_columns_def
      ex_env_def ex_state0_def ex_state_def ex_info_def ex_cached5_def Let_def)

section \<open>Frames: claim C3\<close>

text \<open>
  Claim C3, as the code has it. \<open>parseWAL\<close> reads length-prefixed frames: at each offset
  the length of the frame in four bytes, least significant first, the page number in the
  next four bytes likewise, and as the page the bytes from offset 8 of the frame to its
  length; it goes on at the offset plus that length. For every list of pairs of a page
  number below \<open>2 ^ 32\<close> and a page of fewer than \<open>2 ^ 32 - 8\<close> bytes, the loop on the
  frames of the list in that layout hands the pairs, in order, to \<open>processWALFrame\<close>.
  The page size is not used.
\<close>

theorem parseWAL_loop_frames:
  assumes "\<forall>f\<in>set fs. fst f < 2 ^ 32 \<and> 8 + length (snd f) < 2 ^ 32"
  shows "parseWAL_loop E st (concat (map encode_frame fs)) 0 changes = process_frames E st fs changes"
  using parseWAL_loop_encode_frames [OF assms, of E st "[]" changes] by simp

text \<open>The frame of the example, with page 2 of \<open>users\<close>.\<close>

theorem parseWAL_loop_frames_witness:
  "parseWAL_loop ex_env ex_state (concat (map encode_frame [(2, ex_page2)])) 0 []
     = process_frames ex_env ex_state [(2, ex_page2)] []
   \<and> process_frames ex_env ex_state [(2, ex_page2)] []
     = Inr [(''users'', [(6, Some ex_row6), (7, Some ex_row7)])]"
proof -
  have h: "\<forall>f\<in>set [(2::nat, ex_page2)]. fst f < 2 ^ 32 \<and> 8 + length (snd f) < 2 ^ 32"
    by (simp add: ex_page2_def ex_payload_def)
  show ?thesis
    using parseWAL_loop_frames [OF h, of ex_env ex_state "[]"] by (simp add: ex_processWALFrame)
qed

lemma ex_spec_frames:
  "spec_frames 512 ex_spec_wal = [(2, ex_page2 @ replicate (512 - length ex_page2) 0)]"
proof -
  have len: "length ex_spec_wal = 536" "length ex_page2 = 36"
    by (simp_all add: ex_spec_wal_def ex_page2_def ex_payload_def)
  have "be32 ex_spec_wal = 2" by (simp add: be32_def ex_spec_wal_def)
  moreover have "take 512 (drop 24 ex_spec_wal) = ex_page2 @ replicate (512 - length ex_page2) 0"
    using len(2) by (simp add: ex_spec_wal_def)
  moreover have "drop (24 + 512) ex_spec_wal = []" using len by simp
  ultimately show ?thesis using len
    by (subst spec_frames.simps) (simp add: spec_frames.simps [of 512 "[]"])
qed

lemma ex_spec_wal_code:
  "parseWAL_loop ex_env ex_state ex_spec_wal 0 [] = Inr []"
proof -
  have len: "length ex_spec_wal = 536" "length ex_page2 = 36"
    by (simp_all add: ex_spec_wal_def ex_page2_def ex_payload_def)
  have r1: "readUInt32LE ex_spec_wal 0 = Inr 33554432" "readUInt32LE ex_spec_wal 4 = Inr 16777216"
    by (simp_all add: readUInt32LE_def ex_spec_wal_def)
  have "js_slice ex_spec_wal 8 33554432 = drop 8 ex_spec_wal"
    using len by (simp add: js_slice_def adjustOffset_def)
  moreover have "readUInt8 (drop 8 ex_spec_wal) 0 = Inr 0"
    using len by (simp add: readUInt8_def ex_spec_wal_def nth_append)
  ultimately have p: "processWALFrame ex_env ex_state 16777216 (js_slice ex_spec_wal 8 33554432) [] = Inr []"
    by (simp add: processWALFrame_def)
  have stop: "parseWAL_loop ex_env ex_state ex_spec_wal 33554432 [] = Inr []"
    using len by (subst parseWAL_loop.simps) simp
  show ?thesis
    using len r1 p stop by (subst parseWAL_loop.simps) simp
qed

text \<open>
  Claim C3 as stated fails. On a frame with a header of 24 bytes and a page of 512 bytes,
  the frames of the specification are the page 2 with its two cells; the code reads the
  page number as a length, takes the bytes from offset 8 as the page, whose first byte
  is a zero of the header, and decodes no change.
\<close>

theorem wal_frame_layout_counterexample:
  "spec_frames 512 ex_spec_wal = [(2, ex_page2 @ replicate (512 - length ex_page2) 0)]
   \<and> parseWAL_loop ex_env ex_state ex_spec_wal 0 [] = Inr []
   \<and> parseWAL_loop ex_env ex_state ex_spec_wal 0 []
        \<noteq> process_frames ex_env ex_state (spec_frames 512 ex_spec_wal) []"
  by (simp add: ex_spec_frames ex_spec_wal_code ex_processWALFrame_padded)

section \<open>Cells: claim C5\<close>

text \<open>
  Claim C5, as the code has it. At a cell pointer the rowid varint is read first, then
  the payload-size varint, then as many bytes of payload as the size says; the payload
  goes to \<open>parseRowData\<close>, which reads one value per column of the table, by declared
  type, from the first byte on, with no record header. For a rowid and a size below
  \<open>2 ^ 31\<close>, a cell written in that order decodes to the rowid and the row of its payload.
\<close>

theorem decode_cell_encode:
  assumes "r < 2 ^ 31" and "n < 2 ^ 31" and "length payload = n"
  shows "decode_cell E st name (pre @ encode_varint r @ encode_varint n @ payload @ post) (length pre)
           = (case parseRowData E st name payload of
                Inl e \<Rightarrow> Inl e
              | Inr row \<Rightarrow> Inr (int r, row))"
proof -
  let ?page = "pre @ encode_varint r @ encode_varint n @ payload @ post"
  let ?o1 = "int (length pre)"
  let ?o2 = "int (length (pre @ encode_varint r))"
  let ?o3 = "int (length (pre @ encode_varint r @ encode_varint n))"
  have rv1: "readVarint ?page ?o1 = int r"
    by (rule readVarint_encode [OF assms(1)])
  have sz1: "getVarintSize ?page ?o1 = length (encode_varint r)"
    by (rule getVarintSize_encode(1) [OF assms(1)])
  have page2: "?page = (pre @ encode_varint r) @ encode_varint n @ (payload @ post)" by simp
  have rv2: "readVarint ?page ?o2 = int n"
    by (subst page2) (rule readVarint_encode [OF assms(2)])
  have sz2: "getVarintSize ?page ?o2 = length (encode_varint n)"
    by (subst page2) (rule getVarintSize_encode(1) [OF assms(2)])
  have page3: "?page = (pre @ encode_varint r @ encode_varint n) @ payload @ post" by simp
  have sl: "js_slice ?page ?o3 (int (length (pre @ encode_varint r @ encode_varint n) + length payload)) = payload"
    by (subst page3) (rule js_slice_middle)
  have o2: "?o1 + int (length (encode_varint r)) = ?o2" by simp
  have o3: "?o2 + int (length (encode_varint n)) = ?o3" by simp
  have o4: "?o3 + int n = int (length (pre @ encode_varint r @ encode_varint n) + length payload)"
    using assms(3) by simp
  show ?thesis
    unfolding decode_cell_def Let_def sz1 o2 sz2 o3 rv1 rv2 o4 sl by simp
qed

text \<open>The cell of the example page at offset 10: rowid 5, then size 10.\<close>

theorem decode_cell_encode_witness:
  "decode_cell ex_env ex_state ''users'' ex_page 10
     = Inr (5, [(''id'', VInt 5), (''profile'', VArr [VInt 1, VInt 2]), (''password'', VText ''pw'')])"
proof -
  let ?pre = "[13, 0, 0, 0, 1, 0, 0, 0, 0, 10] :: buffer"
  have e: "encode_varint 5 = [5]" "encode_varint 10 = [10]"
    by (simp_all add: encode_varint.simps)
  have h: "(5::nat) < 2 ^ 31" "(10::nat) < 2 ^ 31" "length (ex_payload 5) = 10"
    by (simp_all add: ex_payload_def)
  have p: "?pre @ encode_varint 5 @ encode_varint 10 @ ex_payload 5 @ [] = ex_page"
    by (simp add: ex_page_def e)
  have len: "length ?pre = 10" by simp
  have "decode_cell ex_env ex_state ''users'' ex_page 10
          = (case parseRowData ex_env ex_state ''users'' (ex_payload 5) of
               Inl e \<Rightarrow> Inl e
             | Inr row \<Rightarrow> Inr (int 5, row))"
    using decode_cell_encode [OF h, of ex_env ex_state "''users''" ?pre "[]"]
    unfolding p len .
  then show ?thesis by (simp add: ex_parseRowData)
qed

text \<open>
  Claim C5 as stated fails. On a cell written with the payload size 10 first and the
  rowid 5 second, the rowid of the specified order is 5 and the code decodes rowid 10.
\<close>

theorem cell_order_counterexample:
  "spec_cell_rowid ex_spec_page 10 = 5
   \<and> map_sum id fst (decode_cell ex_env ex_state ''users'' ex_spec_page 10) = Inr 10"
proof -
  have a: "readVarint ex_spec_page 10 = 10" "getVarintSize ex_spec_page 10 = 1"
    "readVarint ex_spec_page 11 = 5" "getVarintSize ex_spec_page 11 = 1"
    "js_slice ex_spec_page 12 17 = [5, 5, 0x5B, 0x31, 0x2C]"
    by (simp_all add: ex_spec_page_def ex_payload_def js_eval)
  have "parseRowData ex_env ex_state ''users'' [5, 5, 0x5B, 0x31, 0x2C]
          = Inr [(''id'', VInt 5), (''profile'', VText ''[1,''), (''password'', VText [])]"
    by (simp add: ex_world js_eval row_eval)
  then show ?thesis by (simp add: spec_cell_rowid_def decode_cell_def a)
qed

section \<open>The order of writes and notifications: claim C7\<close>

subsection \<open>What a notification leaves unchanged\<close>

lemma foldl_step_quiet:
  "list_all quiet_event es \<Longrightarrow> foldl step Ready es = Ready"
  by (induction es) (auto simp add: quiet_event_def split: event.splits)

lemma foldl_step_Bad: "foldl step Bad es = Bad"
  by (induction es) auto

lemma quiet_not_delete: "list_all quiet_event es \<Longrightarrow> \<not> list_ex is_delete es"
  by (induction es) (auto simp add: quiet_event_def is_delete_def split: event.splits)

lemma quiet_step_refl: "quiet_step st st"
  by (simp add: quiet_step_def)

lemma quiet_step_trans: "quiet_step a b \<Longrightarrow> quiet_step b c \<Longrightarrow> quiet_step a c"
  by (auto simp add: quiet_step_def)

lemma map_fst_update: "map_of al k \<noteq> None \<Longrightarrow> map fst (AList.update k v al) = map fst al"
  by (induction al) auto

lemma invalidate_quiet: "quiet_step st (invalidate E q st)"
  by (auto simp add: invalidate_def quiet_step_def quiet_event_def Let_def map_fst_update
      split: option.splits prod.splits emitted.splits)

lemma notify_query_quiet: "quiet_step st (notify_query E t old new del q st)"
proof -
  have "quiet_step st (st\<lparr>queuedUpdates := insert q (queuedUpdates st)\<rparr>)"
    by (auto simp add: quiet_step_def)
  then have "quiet_step st (invalidate E q (st\<lparr>queuedUpdates := insert q (queuedUpdates st)\<rparr>))"
    using invalidate_quiet quiet_step_trans by blast
  then show ?thesis
    by (simp add: notify_query_def quiet_step_refl split: option.splits)
qed

lemma fold_notify_query_quiet:
  "quiet_step st (fold (notify_query E t old new del) qs st)"
proof (induction qs arbitrary: st)
  case Nil
  show ?case by (simp add: quiet_step_refl)
next
  case (Cons q qs)
  show ?case
    using notify_query_quiet [of st E t old new del q] Cons.IH quiet_step_trans by fastforce
qed

lemma notifyQueries_trace:
  "tableCache (notifyQueries E t old new del st) = tableCache st
   \<and> (\<exists>es. trace (notifyQueries E t old new del st) = trace st @ Notify t old new del # es
            \<and> list_all quiet_event es)"
proof -
  let ?st1 = "st\<lparr>trace := trace st @ [Notify t old new del]\<rparr>"
  have "quiet_step ?st1 (fold (notify_query E t old new del) (map fst (liveQueries st)) ?st1)"
    by (rule fold_notify_query_quiet)
  then show ?thesis
    by (auto simp add: notifyQueries_def quiet_step_def)
qed

subsection \<open>The trace of a batch\<close>

lemma batch_step_refl: "batch_step st st"
  by (simp add: batch_step_def)

lemma batch_step_trans: "batch_step a b \<Longrightarrow> batch_step b c \<Longrightarrow> batch_step a c"
  by (auto simp add: batch_step_def)

lemma apply_row_batch_step: "batch_step st (apply_row E t change st)"
proof (cases "tableCache st t")
  case None
  then show ?thesis by (simp add: apply_row_def batch_step_refl)
next
  case (Some tc)
  obtain r new where change: "change = (r, new)" by (cases change)
  show ?thesis
  proof (cases new)
    case None
    show ?thesis
    proof (cases "tc (Some (VInt r))")
      case None
      then show ?thesis using Some \<open>new = None\<close> change
        by (simp add: apply_row_def batch_step_refl)
    next
      case (Some old)
      let ?st1 = "cache_delete t r st"
      have t1: "trace ?st1 = trace st @ [CacheDelete t r]"
        using \<open>tableCache st t = Some tc\<close> by (simp add: cache_delete_def)
      obtain es where "trace (notifyQueries E t (Some old) None True ?st1)
            = trace ?st1 @ Notify t (Some old) None True # es" "list_all quiet_event es"
        using notifyQueries_trace by blast
      then have "trace (notifyQueries E t (Some old) None True ?st1)
            = trace st @ (CacheDelete t r # Notify t (Some old) None True # es)"
        and "foldl step Ready (CacheDelete t r # Notify t (Some old) None True # es) = Ready"
        using t1 by (simp_all add: foldl_step_quiet)
      then have "batch_step st (notifyQueries E t (Some old) None True ?st1)"
        unfolding batch_step_def by blast
      then show ?thesis using Some \<open>tableCache st t = Some tc\<close> \<open>new = None\<close> change
        by (simp add: apply_row_def batch_step_refl)
    qed
  next
    case (Some nr)
    let ?st1 = "cache_set t r nr st"
    have t1: "trace ?st1 = trace st @ [CacheSet t r nr]"
      using \<open>tableCache st t = Some tc\<close> by (simp add: cache_set_def)
    have *: "batch_step st (notifyQueries E t old (Some nr) False ?st1)" for old
    proof -
      obtain es where "trace (notifyQueries E t old (Some nr) False ?st1)
            = trace ?st1 @ Notify t old (Some nr) False # es" "list_all quiet_event es"
        using notifyQueries_trace by blast
      then have "trace (notifyQueries E t old (Some nr) False ?st1)
            = trace st @ (CacheSet t r nr # Notify t old (Some nr) False # es)"
        and "foldl step Ready (CacheSet t r nr # Notify t old (Some nr) False # es) = Ready"
        using t1 by (simp_all add: foldl_step_quiet)
      then show ?thesis unfolding batch_step_def by blast
    qed
    show ?thesis using * Some \<open>tableCache st t = Some tc\<close> change
      by (cases "tc (Some (VInt r))") (simp_all add: apply_row_def batch_step_refl)
  qed
qed

lemma fold_apply_row_batch_step: "batch_step st (fold (apply_row E t) rows st)"
proof (induction rows arbitrary: st)
  case Nil
  show ?case by (simp add: batch_step_refl)
next
  case (Cons c rows)
  show ?case
    using apply_row_batch_step [of st E t c] Cons.IH batch_step_trans by fastforce
qed

lemma apply_table_batch_step: "batch_step st (apply_table E entry st)"
  by (simp add: apply_table_def batch_step_refl fold_apply_row_batch_step split: option.splits)

lemma fold_apply_table_batch_step: "batch_step st (fold (apply_table E) changes st)"
proof (induction changes arbitrary: st)
  case Nil
  show ?case by (simp add: batch_step_refl)
next
  case (Cons c changes)
  show ?case
    using apply_table_batch_step [of st E c] Cons.IH batch_step_trans by fastforce
qed

lemma applyChanges_batch_step: "batch_step st (applyChanges E changes st)"
proof -
  have "batch_step st (st\<lparr>thrown := None\<rparr>)" by (simp add: batch_step_def)
  then show ?thesis
    unfolding applyChanges_def using fold_apply_table_batch_step batch_step_trans by blast
qed

text \<open>
  Claim C7, as the code has it. \<open>applyChanges\<close> notifies after each row, not after the
  batch: the trace of a batch extends the trace before it by a sequence in which every
  write to a snapshot is followed at once by the call of \<open>notifyQueries\<close> for the table
  and the row just written, with the invalidations and emissions of that call after
  it and before the next write. So a trigger predicate of a row runs when the rows of the
  batch up to that row are in the snapshot and the later ones are not.
\<close>

theorem applyChanges_write_then_notify:
  "take (length (trace st)) (trace (applyChanges E changes st)) = trace st
   \<and> write_then_notify (drop (length (trace st)) (trace (applyChanges E changes st)))"
  using applyChanges_batch_step [of st E changes]
  by (auto simp add: batch_step_def write_then_notify_def)

text \<open>The batch of the example: two writes, each followed by its notification.\<close>

theorem applyChanges_write_then_notify_witness:
  "take (length (trace ex_state)) (trace ex_state') = trace ex_state
   \<and> write_then_notify (drop (length (trace ex_state)) (trace ex_state'))
   \<and> length (trace ex_state') = 6"
  using applyChanges_write_then_notify
    [of ex_state ex_env "[(''users'', [(6, Some ex_row6), (7, Some ex_row7)])]"]
  by (simp add: ex_state'_def [symmetric] ex_trace)

text \<open>
  Claim C7 as stated fails. In the batch of the example the notification and the
  invalidation for rowid 6 come before the write of rowid 7.
\<close>

theorem invalidation_order_counterexample:
  "parseWAL ex_env ex_state ex_wal = Inr ex_state'
   \<and> map is_mutation (trace ex_state') = [True, False, False, False, True, False]
   \<and> map is_notification (trace ex_state') = [False, True, True, False, False, True]
   \<and> \<not> mutations_first (trace ex_state')"
  by (simp add: ex_parseWAL ex_trace)

section \<open>Deletions: claim C1\<close>

subsection \<open>A batch decoded from frames holds no tombstone\<close>

lemma update_member: "x \<in> set (AList.update k v al) \<Longrightarrow> x = (k, v) \<or> x \<in> set al"
  by (induction al) (auto split: if_splits)

lemma update_all:
  assumes "\<forall>x\<in>set al. P x" "P (k, v)"
  shows "\<forall>x\<in>set (AList.update k v al). P x"
  using assms update_member [of _ k v al] by blast

lemma no_tombstones_iff:
  "no_tombstones changes \<longleftrightarrow> (\<forall>entry\<in>set changes. \<forall>change\<in>set (snd entry). snd change \<noteq> None)"
  by (simp add: no_tombstones_def list_all_iff)

lemma map_of_no_tombstones:
  assumes "no_tombstones changes" "map_of changes name = Some m"
  shows "\<forall>change\<in>set m. snd change \<noteq> None"
  using assms map_of_SomeD [of changes name m] by (fastforce simp add: no_tombstones_iff)

lemma no_tombstones_update:
  assumes "no_tombstones changes" "\<forall>change\<in>set m. snd change \<noteq> None"
  shows "no_tombstones (AList.update name m changes)"
  unfolding no_tombstones_iff using assms(1) [unfolded no_tombstones_iff] assms(2)
  by (intro update_all) simp_all

lemma no_tombstones_changes_set:
  assumes "no_tombstones changes"
  shows "no_tombstones (changes_set name rowId row changes)"
proof (cases "map_of changes name")
  case None
  have c: "no_tombstones (AList.update name [] changes)"
    using assms by (rule no_tombstones_update) simp
  have m: "map_of (AList.update name [] changes) name = Some []"
    by (simp add: update_conv')
  have "no_tombstones (AList.update name (AList.update rowId (Some row) []) (AList.update name [] changes))"
    using c by (rule no_tombstones_update) simp
  then show ?thesis using None m by (simp add: changes_set_def)
next
  case (Some m)
  have "\<forall>change\<in>set m. snd change \<noteq> None"
    using assms Some by (rule map_of_no_tombstones)
  then have "\<forall>change\<in>set (AList.update rowId (Some row) m). snd change \<noteq> None"
    by (rule update_all) simp
  with assms have "no_tombstones (AList.update name (AList.update rowId (Some row) m) changes)"
    by (rule no_tombstones_update)
  then show ?thesis using Some by (simp add: changes_set_def)
qed

lemma no_tombstones_cells_loop:
  "no_tombstones changes \<Longrightarrow> cells_loop E st name pageData n cpo changes = Inr changes'
     \<Longrightarrow> no_tombstones changes'"
proof (induction n arbitrary: cpo changes)
  case 0
  then show ?case by simp
next
  case (Suc n)
  then show ?case
    by (auto split: sum.splits prod.splits dest: no_tombstones_changes_set)
qed

lemma no_tombstones_processWALFrame:
  "no_tombstones changes \<Longrightarrow> processWALFrame E st pn pageData changes = Inr changes'
     \<Longrightarrow> no_tombstones changes'"
  by (auto simp add: processWALFrame_def split: sum.splits option.splits if_splits
      dest: no_tombstones_cells_loop)

lemma no_tombstones_parseWAL_loop:
  "no_tombstones changes \<Longrightarrow> parseWAL_loop E st buf offset changes = Inr changes'
     \<Longrightarrow> no_tombstones changes'"
proof (induction E st buf offset changes rule: parseWAL_loop.induct)
  case (1 E st buf offset changes)
  show ?case
  proof (cases "offset < length buf")
    case False
    then show ?thesis using "1.prems" by (subst (asm) parseWAL_loop.simps) simp
  next
    case True
    from "1.prems"(2) True obtain frameSize pageNumber c where
      r1: "readUInt32LE buf offset = Inr frameSize" and
      r2: "readUInt32LE buf (offset + 4) = Inr pageNumber" and
      p: "processWALFrame E st pageNumber
            (js_slice buf (int (offset + 8)) (int (offset + frameSize))) changes = Inr c" and
      rest: "parseWAL_loop E st buf (offset + frameSize) c = Inr changes'"
      by (subst (asm) parseWAL_loop.simps) (auto split: sum.splits)
    have "no_tombstones c" using "1.prems"(1) p by (rule no_tombstones_processWALFrame)
    then show ?thesis using "1.IH" [OF True r1 r2 p] rest by simp
  qed
qed

subsection \<open>Applying a batch without tombstone deletes nothing\<close>

lemma keeps_rows_refl: "keeps_rows st st"
  by (simp add: keeps_rows_def)

lemma keeps_rows_trans:
  assumes "keeps_rows a b" "keeps_rows b c"
  shows "keeps_rows a c"
proof -
  have rows: "\<exists>tc'. tableCache c t = Some tc' \<and> tc' r \<noteq> None"
    if "tableCache a t = Some tc" "tc r \<noteq> None" for t tc r
  proof -
    from assms(1) that obtain tb where "tableCache b t = Some tb" "tb r \<noteq> None"
      unfolding keeps_rows_def by blast
    with assms(2) show ?thesis unfolding keeps_rows_def by blast
  qed
  obtain tr1 where tr1: "trace b = trace a @ tr1" "\<not> list_ex is_delete tr1"
    using assms(1) unfolding keeps_rows_def by blast
  obtain tr2 where tr2: "trace c = trace b @ tr2" "\<not> list_ex is_delete tr2"
    using assms(2) unfolding keeps_rows_def by blast
  have "trace c = trace a @ (tr1 @ tr2)" "\<not> list_ex is_delete (tr1 @ tr2)"
    using tr1 tr2 by simp_all
  then have "\<exists>tr. trace c = trace a @ tr \<and> \<not> list_ex is_delete tr" by blast
  then show ?thesis using rows unfolding keeps_rows_def by blast
qed

lemma notifyQueries_keeps_rows: "keeps_rows st (notifyQueries E t old new del st)"
proof -
  obtain es where "trace (notifyQueries E t old new del st) = trace st @ Notify t old new del # es"
    "list_all quiet_event es" "tableCache (notifyQueries E t old new del st) = tableCache st"
    using notifyQueries_trace by blast
  moreover from this have "\<not> list_ex is_delete (Notify t old new del # es)"
    using quiet_not_delete by (simp add: is_delete_def)
  ultimately show ?thesis unfolding keeps_rows_def by auto
qed

lemma cache_set_keeps_rows: "keeps_rows st (cache_set t r row st)"
  by (cases "tableCache st t") (auto simp add: cache_set_def keeps_rows_def is_delete_def)

lemma apply_row_keeps_rows:
  assumes "snd change \<noteq> None"
  shows "keeps_rows st (apply_row E t change st)"
proof -
  obtain r nr where change: "change = (r, Some nr)" using assms by (cases change) auto
  have "keeps_rows st (notifyQueries E t old (Some nr) False (cache_set t r nr st))" for old
    using cache_set_keeps_rows notifyQueries_keeps_rows keeps_rows_trans by blast
  then show ?thesis
    by (auto simp add: apply_row_def change keeps_rows_refl split: option.splits)
qed

lemma fold_apply_row_keeps_rows:
  "\<forall>change\<in>set rows. snd change \<noteq> None \<Longrightarrow> keeps_rows st (fold (apply_row E t) rows st)"
proof (induction rows arbitrary: st)
  case Nil
  show ?case by (simp add: keeps_rows_refl)
next
  case (Cons c rows)
  then show ?case
    using apply_row_keeps_rows [of c st E t] keeps_rows_trans by fastforce
qed

lemma fold_apply_table_keeps_rows:
  "no_tombstones changes \<Longrightarrow> keeps_rows st (fold (apply_table E) changes st)"
proof (induction changes arbitrary: st)
  case Nil
  show ?case by (simp add: keeps_rows_refl)
next
  case (Cons c changes)
  have c: "\<forall>change\<in>set (snd c). snd change \<noteq> None" and rest: "no_tombstones changes"
    using Cons.prems by (simp_all add: no_tombstones_iff)
  have "keeps_rows st (apply_table E c st)"
    using c by (simp add: apply_table_def keeps_rows_refl fold_apply_row_keeps_rows split: option.splits)
  then show ?case using Cons.IH [OF rest] keeps_rows_trans by fastforce
qed

lemma applyChanges_keeps_rows:
  assumes "no_tombstones changes"
  shows "keeps_rows st (applyChanges E changes st)"
proof -
  have "keeps_rows st (st\<lparr>thrown := None\<rparr>)" by (simp add: keeps_rows_def)
  then show ?thesis
    unfolding applyChanges_def
    using fold_apply_table_keeps_rows [OF assms] keeps_rows_trans by blast
qed

text \<open>When \<open>parseWAL\<close> throws, the state it leaves has lost no row either.\<close>

lemma parseWAL_rejected_keeps_rows:
  assumes "parseWAL E st buf = Inl (e, st')"
  shows "e = WAL_PARSE_ERROR \<and> keeps_rows st st'"
proof (cases "parseWAL_loop E st buf 0 []")
  case (Inl a)
  then show ?thesis using assms by (simp add: parseWAL_def keeps_rows_refl)
next
  case (Inr changes)
  have "no_tombstones []" by (simp add: no_tombstones_def)
  then have "no_tombstones changes" using Inr by (rule no_tombstones_parseWAL_loop)
  then have a: "keeps_rows st (applyChanges E changes st)" by (rule applyChanges_keeps_rows)
  have b: "keeps_rows (applyChanges E changes st) ((applyChanges E changes st)\<lparr>thrown := None\<rparr>)"
    by (simp add: keeps_rows_def)
  from assms Inr have "e = WAL_PARSE_ERROR" "st' = (applyChanges E changes st)\<lparr>thrown := None\<rparr>"
    by (auto simp add: parseWAL_def Let_def split: option.splits)
  then show ?thesis using a b keeps_rows_trans by blast
qed

text \<open>
  Claim C1, as the code has it. The change map \<open>parseWAL\<close> decodes holds, for each tracked
  table of a leaf page in the batch, the rowids of the cells of that page, each with its
  decoded row, and never a tombstone. Nothing is inferred from a rowid that is absent
  from the cells: every rowid in the snapshot of a table before the batch is still in it
  after the batch, and the batch writes no delete.
\<close>

theorem parseWAL_never_deletes:
  assumes "parseWAL E st buf = Inr st'"
    and "tableCache st tableName = Some tc" and "tc rowId \<noteq> None"
  shows "(\<exists>changes. parseWAL_loop E st buf 0 [] = Inr changes \<and> no_tombstones changes
            \<and> st' = applyChanges E changes st)
       \<and> (\<exists>tc'. tableCache st' tableName = Some tc' \<and> tc' rowId \<noteq> None)
       \<and> \<not> list_ex is_delete (drop (length (trace st)) (trace st'))"
proof -
  from assms(1) obtain changes where
    loop: "parseWAL_loop E st buf 0 [] = Inr changes" and st': "st' = applyChanges E changes st"
    by (auto simp add: parseWAL_def Let_def split: sum.splits option.splits)
  have "no_tombstones []" by (simp add: no_tombstones_def)
  then have nt: "no_tombstones changes" using loop by (rule no_tombstones_parseWAL_loop)
  then have "keeps_rows st st'" unfolding st' by (rule applyChanges_keeps_rows)
  then show ?thesis using loop nt st' assms(2,3) unfolding keeps_rows_def by auto
qed

text \<open>The batch of the example leaves rowid 5 in the snapshot of \<open>users\<close>.\<close>

theorem parseWAL_never_deletes_witness:
  "(\<exists>tc'. tableCache ex_state' ''users'' = Some tc' \<and> tc' (Some (VInt 5)) \<noteq> None)
   \<and> \<not> list_ex is_delete (drop (length (trace ex_state)) (trace ex_state'))"
proof -
  have a: "tableCache ex_state ''users'' = Some [Some (VInt 5) \<mapsto> ex_cached5]"
    by (simp add: ex_state_def)
  have b: "[Some (VInt 5) \<mapsto> ex_cached5] (Some (VInt 5)) \<noteq> None" by simp
  show ?thesis using parseWAL_never_deletes [OF ex_parseWAL a b] by blast
qed

text \<open>
  Claim C1 as stated fails. In the example rowid 5 is in the snapshot of \<open>users\<close>, the
  batch holds the page of \<open>users\<close> with the cells of rowids 6 and 7 only, and after the
  batch rowid 5 is still in the snapshot, with no delete in the trace.
\<close>

theorem deletion_inference_counterexample:
  "tableCache ex_state ''users'' = Some [Some (VInt 5) \<mapsto> ex_cached5]
   \<and> sqlite_master ex_env 2 = Some ''users''
   \<and> ''users'' \<in> usedTables ex_state
   \<and> ex_wal = encode_frame (2, ex_page2)
   \<and> map_sum id (map (\<lambda>entry. (fst entry, map fst (snd entry)))) (parseWAL_loop ex_env ex_state ex_wal 0 [])
       = Inr [(''users'', [6, 7])]
   \<and> parseWAL ex_env ex_state ex_wal = Inr ex_state'
   \<and> the (tableCache ex_state' ''users'') (Some (VInt 5)) = Some ex_cached5
   \<and> \<not> list_ex is_delete (trace ex_state')"
  by (simp add: ex_parseWAL_loop ex_parseWAL ex_cache ex_trace is_delete_def)
     (simp add: ex_state_def ex_env_def ex_wal_def)

section \<open>The queue of invalidated queries: claim C2\<close>

lemma notify_query_already_queued:
  "\<not> checkConditionWhenQueued st \<Longrightarrow> q \<in> queuedUpdates st
     \<Longrightarrow> notify_query E t old new del q st = st"
  by (simp add: notify_query_def split: option.splits)

lemma notifyQueries_queuedUpdates:
  "queuedUpdates st \<subseteq> queuedUpdates (notifyQueries E t old new del st)"
proof -
  let ?st1 = "st\<lparr>trace := trace st @ [Notify t old new del]\<rparr>"
  have "quiet_step ?st1 (fold (notify_query E t old new del) (map fst (liveQueries st)) ?st1)"
    by (rule fold_notify_query_quiet)
  then show ?thesis by (simp add: notifyQueries_def quiet_step_def)
qed

text \<open>
  With \<open>checkConditionWhenQueued\<close> off, a batch invalidates no query that was in the
  queue before it, and leaves it in the queue.
\<close>

lemma no_requeue_refl: "no_requeue st st"
  by (simp add: no_requeue_def)

lemma no_requeue_trans:
  assumes "no_requeue a b" "no_requeue b c"
  shows "no_requeue a c"
proof -
  obtain es1 where es1: "trace b = trace a @ es1" "\<And>q. Invalidate q \<in> set es1 \<Longrightarrow> q \<notin> queuedUpdates a"
    using assms(1) unfolding no_requeue_def by blast
  obtain es2 where es2: "trace c = trace b @ es2" "\<And>q. Invalidate q \<in> set es2 \<Longrightarrow> q \<notin> queuedUpdates b"
    using assms(2) unfolding no_requeue_def by blast
  have sub: "queuedUpdates a \<subseteq> queuedUpdates b" "queuedUpdates b \<subseteq> queuedUpdates c"
    using assms unfolding no_requeue_def by blast+
  have "trace c = trace a @ (es1 @ es2)" using es1(1) es2(1) by simp
  moreover have "q \<notin> queuedUpdates a" if "Invalidate q \<in> set (es1 @ es2)" for q
    using that es1(2) es2(2) sub(1) by auto
  ultimately have "\<exists>es. trace c = trace a @ es \<and> (\<forall>q. Invalidate q \<in> set es \<longrightarrow> q \<notin> queuedUpdates a)"
    by blast
  then show ?thesis using assms sub unfolding no_requeue_def by auto
qed

lemma emitted_no_invalidate:
  "Invalidate q' \<notin> set (case ev of
                            None \<Rightarrow> []
                          | Some (Error e) \<Rightarrow> if l then [Emit q (Error e)] else []
                          | Some (Update d rows) \<Rightarrow> [Emit q (Update d rows)])"
  "Invalidate q' \<notin> set (case em of
                            Update d rows \<Rightarrow> [Emit q (Update d rows)]
                          | Error e \<Rightarrow> if l then [Emit q (Error e)] else [])"
  by (simp_all split: option.split emitted.split)

lemma invalidate_trace:
  "\<exists>es. trace (invalidate E q st) = trace st @ es \<and> (\<forall>q'. Invalidate q' \<in> set es \<longrightarrow> q' = q)"
  by (auto simp add: invalidate_def Let_def emitted_no_invalidate split: option.splits prod.splits)

lemma invalidate_queue:
  "queuedUpdates (invalidate E q st) = queuedUpdates st"
  "checkConditionWhenQueued (invalidate E q st) = checkConditionWhenQueued st"
  by (auto simp add: invalidate_def Let_def split: option.splits prod.splits)

lemma notify_query_no_requeue:
  assumes "\<not> checkConditionWhenQueued st"
  shows "no_requeue st (notify_query E t old new del q st)"
proof (cases "q \<in> queuedUpdates st")
  case True
  then show ?thesis using assms
    by (simp add: notify_query_def no_requeue_refl split: option.splits)
next
  case False
  let ?st1 = "st\<lparr>queuedUpdates := insert q (queuedUpdates st)\<rparr>"
  obtain es where es: "trace (invalidate E q ?st1) = trace ?st1 @ es"
    "\<And>q'. Invalidate q' \<in> set es \<Longrightarrow> q' = q"
    using invalidate_trace [of E q ?st1] by blast
  have "no_requeue st (invalidate E q ?st1)"
    unfolding no_requeue_def using es False by (auto simp add: invalidate_queue)
  then show ?thesis
    by (simp add: notify_query_def no_requeue_refl split: option.splits)
qed

lemma fold_notify_query_no_requeue:
  "\<not> checkConditionWhenQueued st
     \<Longrightarrow> no_requeue st (fold (notify_query E t old new del) qs st)"
proof (induction qs arbitrary: st)
  case Nil
  show ?case by (simp add: no_requeue_refl)
next
  case (Cons q qs)
  let ?st1 = "notify_query E t old new del q st"
  have a: "no_requeue st ?st1" using Cons.prems by (rule notify_query_no_requeue)
  then have "\<not> checkConditionWhenQueued ?st1" using Cons.prems by (simp add: no_requeue_def)
  then have "no_requeue ?st1 (fold (notify_query E t old new del) qs ?st1)" by (rule Cons.IH)
  with a show ?case by (simp add: no_requeue_trans)
qed

lemma no_requeue_trace_only:
  assumes "\<And>q. e \<noteq> Invalidate q"
  shows "no_requeue st (st\<lparr>trace := trace st @ [e]\<rparr>)"
  using assms by (auto simp add: no_requeue_def)

lemma notifyQueries_no_requeue:
  assumes "\<not> checkConditionWhenQueued st"
  shows "no_requeue st (notifyQueries E t old new del st)"
proof -
  let ?st1 = "st\<lparr>trace := trace st @ [Notify t old new del]\<rparr>"
  have a: "no_requeue st ?st1" by (rule no_requeue_trace_only) simp
  have "\<not> checkConditionWhenQueued ?st1" using assms by simp
  then have "no_requeue ?st1 (fold (notify_query E t old new del) (map fst (liveQueries ?st1)) ?st1)"
    by (rule fold_notify_query_no_requeue)
  with a show ?thesis by (simp add: notifyQueries_def no_requeue_trans)
qed

lemma cache_write_no_requeue:
  "no_requeue st (cache_set t r row st)" "no_requeue st (cache_delete t r st)"
  by (auto simp add: cache_set_def cache_delete_def no_requeue_def split: option.splits)

lemma apply_row_no_requeue:
  assumes "\<not> checkConditionWhenQueued st"
  shows "no_requeue st (apply_row E t change st)"
proof -
  have *: "no_requeue st (notifyQueries E t old new del st1)"
    if "no_requeue st st1" for old new del st1
  proof -
    have "\<not> checkConditionWhenQueued st1" using that assms by (simp add: no_requeue_def)
    then have "no_requeue st1 (notifyQueries E t old new del st1)" by (rule notifyQueries_no_requeue)
    with that show ?thesis by (rule no_requeue_trans)
  qed
  show ?thesis
    by (auto simp add: apply_row_def no_requeue_refl cache_write_no_requeue intro!: *
        split: option.splits)
qed

lemma fold_apply_row_no_requeue:
  "\<not> checkConditionWhenQueued st \<Longrightarrow> no_requeue st (fold (apply_row E t) rows st)"
proof (induction rows arbitrary: st)
  case Nil
  show ?case by (simp add: no_requeue_refl)
next
  case (Cons c rows)
  let ?st1 = "apply_row E t c st"
  have a: "no_requeue st ?st1" using Cons.prems by (rule apply_row_no_requeue)
  then have "\<not> checkConditionWhenQueued ?st1" using Cons.prems by (simp add: no_requeue_def)
  then have "no_requeue ?st1 (fold (apply_row E t) rows ?st1)" by (rule Cons.IH)
  with a show ?case by (simp add: no_requeue_trans)
qed

lemma fold_apply_table_no_requeue:
  "\<not> checkConditionWhenQueued st \<Longrightarrow> no_requeue st (fold (apply_table E) changes st)"
proof (induction changes arbitrary: st)
  case Nil
  show ?case by (simp add: no_requeue_refl)
next
  case (Cons c changes)
  let ?st1 = "apply_table E c st"
  have a: "no_requeue st ?st1"
    using Cons.prems
    by (simp add: apply_table_def no_requeue_refl fold_apply_row_no_requeue split: option.splits)
  then have "\<not> checkConditionWhenQueued ?st1" using Cons.prems by (simp add: no_requeue_def)
  then have "no_requeue ?st1 (fold (apply_table E) changes ?st1)" by (rule Cons.IH)
  with a show ?case by (simp add: no_requeue_trans)
qed

lemma applyChanges_no_requeue:
  assumes "\<not> checkConditionWhenQueued st"
  shows "no_requeue st (applyChanges E changes st)"
proof -
  let ?st1 = "st\<lparr>thrown := None\<rparr>"
  have a: "no_requeue st ?st1" by (simp add: no_requeue_def)
  have "\<not> checkConditionWhenQueued ?st1" using assms by simp
  then have "no_requeue ?st1 (fold (apply_table E) changes ?st1)"
    by (rule fold_apply_table_no_requeue)
  with a show ?thesis unfolding applyChanges_def by (rule no_requeue_trans)
qed

lemma queued_query_stays_queued:
  assumes "\<not> checkConditionWhenQueued st" and "q \<in> queuedUpdates st"
  shows "q \<in> queuedUpdates (applyChanges E changes st)
       \<and> Invalidate q \<notin> set (drop (length (trace st)) (trace (applyChanges E changes st)))"
  using applyChanges_no_requeue [OF assms(1), of E changes] assms(2)
  by (auto simp add: no_requeue_def)

text \<open>
  Claim C2 on the code. Nothing removes an identifier from \<open>queuedUpdates\<close>: with
  \<open>checkConditionWhenQueued\<close> off, a query in the set is invalidated by no later batch
  (\<open>queued_query_stays_queued\<close>). In the example the first notification invalidates
  query 1 and queues it; the second notification, for another row of the same table,
  does not invalidate it, and it stays queued.
\<close>

theorem queued_query_not_invalidated_again:
  "\<not> checkConditionWhenQueued ex_state
   \<and> queuedUpdates ex_state = {}
   \<and> filter is_invalidate (trace (notifyQueries ex_env ''users'' None (Some ex_row6) False ex_state))
       = [Invalidate 1]
   \<and> queuedUpdates (notifyQueries ex_env ''users'' None (Some ex_row6) False ex_state) = {1}
   \<and> filter is_invalidate
        (trace (notifyQueries ex_env ''users'' None (Some ex_row7) False
                 (notifyQueries ex_env ''users'' None (Some ex_row6) False ex_state)))
       = [Invalidate 1]
   \<and> queuedUpdates (notifyQueries ex_env ''users'' None (Some ex_row7) False
                 (notifyQueries ex_env ''users'' None (Some ex_row6) False ex_state)) = {1}"
  by (simp add: apply_eval ex_env_def ex_state_def ex_query_def ex_rows is_invalidate_def)

section \<open>The column cache: claim C6\<close>

lemma fold_rowid_lookup:
  "fold (\<lambda>row cache. cache(map_of row ''rowid'' \<mapsto> row)) rows m k = Some v
     \<Longrightarrow> (v \<in> set rows \<and> map_of v ''rowid'' = k) \<or> m k = Some v"
proof (induction rows arbitrary: m)
  case Nil
  then show ?case by simp
next
  case (Cons r rows)
  have "fold (\<lambda>row cache. cache(map_of row ''rowid'' \<mapsto> row)) rows (m(map_of r ''rowid'' \<mapsto> r)) k = Some v"
    using Cons.prems by (simp only: fold_simps)
  then have "(v \<in> set rows \<and> map_of v ''rowid'' = k) \<or> (m(map_of r ''rowid'' \<mapsto> r)) k = Some v"
    by (rule Cons.IH)
  then show ?case
    by (cases "k = map_of r ''rowid''") auto
qed

lemma fold_rowid_keeps:
  "m k \<noteq> None \<Longrightarrow> fold (\<lambda>row cache. cache(map_of row ''rowid'' \<mapsto> row)) rows m k \<noteq> None"
proof (induction rows arbitrary: m)
  case Nil
  then show ?case by simp
next
  case (Cons r rows)
  have "(m(map_of r ''rowid'' \<mapsto> r)) k \<noteq> None" using Cons.prems by simp
  then have "fold (\<lambda>row cache. cache(map_of row ''rowid'' \<mapsto> row)) rows (m(map_of r ''rowid'' \<mapsto> r)) k \<noteq> None"
    by (rule Cons.IH)
  then show ?case by (simp only: fold_simps not_False_eq_True)
qed

lemma fold_rowid_present:
  "r \<in> set rows \<Longrightarrow> fold (\<lambda>row cache. cache(map_of row ''rowid'' \<mapsto> row)) rows m (map_of r ''rowid'') \<noteq> None"
proof (induction rows arbitrary: m)
  case Nil
  then show ?case by simp
next
  case (Cons a rows)
  show ?case
  proof (cases "r = a")
    case True
    have "(m(map_of a ''rowid'' \<mapsto> a)) (map_of a ''rowid'') \<noteq> None" by simp
    then have "fold (\<lambda>row cache. cache(map_of row ''rowid'' \<mapsto> row)) rows (m(map_of a ''rowid'' \<mapsto> a)) (map_of a ''rowid'') \<noteq> None"
      by (rule fold_rowid_keeps)
    then show ?thesis using True by (simp only: fold_simps not_False_eq_True)
  next
    case False
    then have "r \<in> set rows" using Cons.prems by simp
    then have "fold (\<lambda>row cache. cache(map_of row ''rowid'' \<mapsto> row)) rows (m(map_of a ''rowid'' \<mapsto> a)) (map_of r ''rowid'') \<noteq> None"
      by (rule Cons.IH)
    then show ?thesis by (simp only: fold_simps not_False_eq_True)
  qed
qed

text \<open>
  A row decoded from a cell has a key for every column of the table, cached or not.
\<close>

lemma parseRowData_loop_keys:
  "parseRowData_loop E data cols off init = Inr row
     \<Longrightarrow> fst ` set row = col_name ` set cols \<union> fst ` set init"
proof (induction cols arbitrary: off init)
  case Nil
  then show ?case by simp
next
  case (Cons c cols)
  from Cons.prems obtain v where
    "parseRowData_loop E data cols (off + getValueSize data off (col_type c))
       (AList.update (col_name c) v init) = Inr row"
    by (auto split: sum.splits)
  from Cons.IH [OF this] show ?case by (simp add: dom_update Un_assoc Un_left_commute)
qed

lemma parseRowData_all_columns:
  "parseRowData E st tableName data = Inr row \<Longrightarrow> tableInfo st tableName = Some cols
     \<Longrightarrow> fst ` set row = col_name ` set cols"
  using parseRowData_loop_keys [of E data cols 0 "[]" row] by (simp add: parseRowData_def)

text \<open>
  On the table \<open>players\<close>, whose rowid the database names \<open>id\<close>, \<open>row.rowid\<close> is
  \<open>undefined\<close> for every row: the snapshot has the one key \<open>undefined\<close>, with the last row.
\<close>

lemma ex_cacheTable_players:
  "snd (cacheTable ex_env_players ''players'' ex_state0) = None"
  "tableCache (fst (cacheTable ex_env_players ''players'' ex_state0)) ''players''
     = Some [None \<mapsto> [(''id'', VInt 12), (''name'', VText ''Bob'')]]"
  by (simp_all add: cacheTable_def cacheTableInfo_def cached_columns_def
      ex_env_players_def ex_players_def ex_env_def ex_state0_def Let_def)

lemma ex_cacheTable:
  "snd (cacheTable ex_env ''users'' ex_state0) = None"
  "tableCache (fst (cacheTable ex_env ''users'' ex_state0)) ''users'' = Some [Some (VInt 5) \<mapsto> ex_cached5]"
  by (simp_all add: cacheTable_def cacheTableInfo_def cached_columns_def
      ex_env_def ex_state0_def ex_info_def ex_cached5_def Let_def)

text \<open>
  Claim C6, as the code has it. \<open>cacheTable\<close> asks the database for \<open>rowid\<close> and the
  selected columns: the include list when there is one, otherwise the columns of the
  table that are not in the exclude list, otherwise all of them. When the statement
  succeeds, the snapshot of the table holds rows the statement has returned, as it has
  returned them, each under its \<open>rowid\<close> property, and has an entry for the key of every
  returned row. The rows a query emits and compares are the rows of its own statement,
  which the column cache does not filter: when the statement of a query succeeds, its
  rows are the new last result, the rows of the update and the rows of the diff.
\<close>

theorem cacheTable_columns:
  assumes "cacheTable E tableName st = (st', None)"
    and "info = (case tableInfo st tableName of None \<Rightarrow> db_table_info E tableName | Some i \<Rightarrow> i)"
    and "cols = (case columnCache st tableName of
                   None \<Rightarrow> map col_name info
                 | Some c \<Rightarrow>
                     (case cs_include c of
                        Some inc \<Rightarrow> inc
                      | None \<Rightarrow>
                          (case cs_exclude c of
                             Some exc \<Rightarrow> filter (\<lambda>col. col \<notin> set exc) (map col_name info)
                           | None \<Rightarrow> map col_name info)))"
  shows "(\<exists>rows tc.
           db_select E tableName cols = Inr rows
         \<and> tableCache st' tableName = Some tc
         \<and> (\<forall>k row. tc k = Some row \<longrightarrow> row \<in> set rows \<and> map_of row ''rowid'' = k)
         \<and> (\<forall>row\<in>set rows. \<exists>row'\<in>set rows. tc (map_of row ''rowid'') = Some row'))
       \<and> (\<forall>qid ks prev newResult. stmt_all E qid = Inr newResult \<longrightarrow>
            fst (execute E ks qid prev) = Some newResult
            \<and> (\<forall>d rows. snd (execute E ks qid prev) = Some (Update d rows)
                   \<longrightarrow> rows = newResult \<and> d = diffResults E ks prev newResult))"
proof -
  let ?st1 = "if tableInfo st tableName = None then cacheTableInfo E tableName st else st"
  let ?info = "case tableInfo ?st1 tableName of None \<Rightarrow> [] | Some i \<Rightarrow> i"
  let ?cols = "cached_columns (columnCache ?st1 tableName) ?info"
  have info: "?info = (case tableInfo st tableName of None \<Rightarrow> db_table_info E tableName | Some i \<Rightarrow> i)"
    by (auto simp add: cacheTableInfo_def split: option.splits)
  have cc: "columnCache ?st1 tableName = columnCache st tableName"
    by (simp add: cacheTableInfo_def)
  have cols: "cached_columns (columnCache st tableName) info = cols"
    unfolding assms(3) by (simp add: cached_columns_def split: option.splits)
  from assms(1) obtain rows where
    sel: "db_select E tableName ?cols = Inr rows" and
    st': "st' = ?st1\<lparr>tableCache := (tableCache ?st1)(tableName \<mapsto>
                    fold (\<lambda>row cache. cache(map_of row ''rowid'' \<mapsto> row)) rows Map.empty)\<rparr>"
    unfolding cacheTable_def Let_def by (auto split: sum.splits)
  let ?tc = "fold (\<lambda>row cache. cache(map_of row ''rowid'' \<mapsto> row)) rows Map.empty"
  have tc: "tableCache st' tableName = Some ?tc" using st' by simp
  have a: "row \<in> set rows \<and> map_of row ''rowid'' = k" if "?tc k = Some row" for k row
    using fold_rowid_lookup [OF that] by simp
  have b: "\<exists>row'\<in>set rows. ?tc (map_of row ''rowid'') = Some row'" if "row \<in> set rows" for row
  proof -
    from that have "?tc (map_of row ''rowid'') \<noteq> None" by (rule fold_rowid_present)
    then obtain row' where r: "?tc (map_of row ''rowid'') = Some row'" by blast
    then have "row' \<in> set rows" using a by blast
    with r show ?thesis by blast
  qed
  from sel have "db_select E tableName (cached_columns (columnCache st tableName) info) = Inr rows"
    unfolding assms(2) by (simp only: info cc)
  then have "db_select E tableName cols = Inr rows" by (simp only: cols)
  with tc a b have snapshot: "\<exists>rows tc.
           db_select E tableName cols = Inr rows
         \<and> tableCache st' tableName = Some tc
         \<and> (\<forall>k row. tc k = Some row \<longrightarrow> row \<in> set rows \<and> map_of row ''rowid'' = k)
         \<and> (\<forall>row\<in>set rows. \<exists>row'\<in>set rows. tc (map_of row ''rowid'') = Some row')"
    by blast
  have "fst (execute E ks qid prev) = Some newResult
        \<and> (\<forall>d rows. snd (execute E ks qid prev) = Some (Update d rows)
               \<longrightarrow> rows = newResult \<and> d = diffResults E ks prev newResult)"
    if "stmt_all E qid = Inr newResult" for qid ks prev newResult
    using that by (simp add: execute_def Let_def)
  with snapshot show ?thesis by blast
qed


text \<open>
  In the example \<open>password\<close> is excluded: the statement selects \<open>id\<close> and \<open>profile\<close>, and
  the snapshot holds the row it returns under the rowid 5; the last result of the query
  is the row of its statement, with \<open>password\<close>.
\<close>

theorem cacheTable_columns_witness:
  "db_select ex_env ''users'' [''id'', ''profile''] = Inr [ex_cached5]
   \<and> tableCache (fst (cacheTable ex_env ''users'' ex_state0)) ''users'' = Some [Some (VInt 5) \<mapsto> ex_cached5]
   \<and> map_of ex_cached5 ''rowid'' = Some (VInt 5)
   \<and> fst ` set ex_cached5 = {''rowid'', ''id'', ''profile''}
   \<and> fst (execute ex_env (Columns [''id'']) 1 (Some [ex_row5])) = Some [ex_row5']"
proof -
  have a: "cacheTable ex_env ''users'' ex_state0 = (fst (cacheTable ex_env ''users'' ex_state0), None)"
    using ex_cacheTable(1) by (simp add: prod_eq_iff)
  have i: "db_table_info ex_env ''users''
             = (case tableInfo ex_state0 ''users'' of None \<Rightarrow> db_table_info ex_env ''users'' | Some i \<Rightarrow> i)"
    by (simp add: ex_state0_def)
  have c: "[''id'', ''profile''] =
             (case columnCache ex_state0 ''users'' of
                None \<Rightarrow> map col_name (db_table_info ex_env ''users'')
              | Some c \<Rightarrow>
                  (case cs_include c of
                     Some inc \<Rightarrow> inc
                   | None \<Rightarrow>
                       (case cs_exclude c of
                          Some exc \<Rightarrow> filter (\<lambda>col. col \<notin> set exc) (map col_name (db_table_info ex_env ''users''))
                        | None \<Rightarrow> map col_name (db_table_info ex_env ''users''))))"
    by (simp add: ex_state0_def ex_env_def ex_info_def)
  obtain rows tc where
    "db_select ex_env ''users'' [''id'', ''profile''] = Inr rows"
    "tableCache (fst (cacheTable ex_env ''users'' ex_state0)) ''users'' = Some tc"
    "\<forall>k row. tc k = Some row \<longrightarrow> row \<in> set rows \<and> map_of row ''rowid'' = k"
    using cacheTable_columns [OF a i c] by blast
  moreover have "stmt_all ex_env 1 = Inr [ex_row5']" by (simp add: ex_env_def)
  then have "fst (execute ex_env (Columns [''id'']) 1 (Some [ex_row5])) = Some [ex_row5']"
    using cacheTable_columns [OF a i c] by blast
  ultimately show ?thesis
    using ex_cacheTable(2) by (auto simp add: ex_env_def ex_cached5_def)
qed

text \<open>
  Claim C6 as stated fails. With \<open>password\<close> excluded from the cache of \<open>users\<close> and a
  statement that selects it, a change of \<open>password\<close> alone gives an update whose
  \<open>changed\<close> holds the row, \<open>password\<close> among its keys.
\<close>

theorem column_cache_counterexample:
  "columnCache ex_state ''users'' = Some \<lparr>cs_include = None, cs_exclude = Some [''password'']\<rparr>
   \<and> filter (\<lambda>p. fst p \<noteq> ''password'') ex_row5' = filter (\<lambda>p. fst p \<noteq> ''password'') ex_row5
   \<and> stmt_all ex_env 1 = Inr [ex_row5']
   \<and> execute ex_env (Columns [''id'']) 1 (Some [ex_row5])
       = (Some [ex_row5'], Some (Update \<lparr>added = [], changed = [ex_row5'], removed = []\<rparr> [ex_row5']))
   \<and> map_of ex_row5' ''password'' = Some (VText ''new'')"
  by (simp add: ex_state_def ex_env_def ex_row5_def ex_row5'_def execute_def diffResults_def
      map_keySelector_def changed_row_def join_element_def Let_def)

section \<open>The diff engine: claim C8\<close>

lemma diff_new_loop_filter:
  "diff_new_loop E ks oldKeys old new d =
     d\<lparr>added := added d @ filter (\<lambda>r. keySelector ks r None \<notin> oldKeys) new,
       changed := changed d @ filter (\<lambda>r. keySelector ks r None \<in> oldKeys
                     \<and> changed_row E ks old r (keySelector ks r None)) new\<rparr>"
  by (induction new arbitrary: d) (simp_all add: Let_def)





lemma Columns_index_free: "keySelector (Columns cols) r i = keySelector (Columns cols) r None"
  by simp

text \<open>For every selector: no old result, and when an update is emitted.\<close>

lemma diffResults_old_absent:
  "diffResults E ks None newResult = \<lparr>added = newResult, changed = [], removed = []\<rparr>"
  by (simp add: diffResults_def Let_def diff_new_loop_filter map_keySelector_def)

lemma execute_emits_iff:
  assumes "stmt_all E qid = Inr newResult"
  shows "snd (execute E ks qid prev) \<noteq> None \<longleftrightarrow>
           added (diffResults E ks prev newResult) \<noteq> []
           \<or> changed (diffResults E ks prev newResult) \<noteq> []
           \<or> removed (diffResults E ks prev newResult) \<noteq> []"
  using assms by (simp add: execute_def Let_def)

text \<open>
  Claim C8 on the code. For a selector that ignores the index, \<open>diffResults\<close> is the three
  filters of the claim (\<open>diffResults_index_free\<close>); for every selector an absent old
  result gives the new rows as added, and an update is emitted when one of the three
  sequences has a row. With the \<open>Index\<close> selector the keys
  collected by \<open>map\<close> are the positions and the key looked up in each loop is
  \<open>undefined\<close>: an unchanged single row is reported as added and as removed, and an
  update is emitted.
\<close>

theorem diffResults_Index_selector:
  "map_keySelector Index [ex_row5] = [KNum 0]
   \<and> keySelector Index ex_row5 None = KUndefined
   \<and> diffResults E Index (Some [ex_row5]) [ex_row5]
       = \<lparr>added = [ex_row5], changed = [], removed = [ex_row5]\<rparr>
   \<and> snd (execute (E\<lparr>stmt_all := \<lambda>q. Inr [ex_row5]\<rparr>) Index 1 (Some [ex_row5]))
       = Some (Update \<lparr>added = [ex_row5], changed = [], removed = [ex_row5]\<rparr> [ex_row5])"
  by (simp add: diffResults_def map_keySelector_def execute_def Let_def)

section \<open>JSON texts: claim C9\<close>

text \<open>
  Claim C9 on the code. \<open>parseValue\<close> replaces a text by its parsed JSON; \<open>cacheTable\<close>
  and the statement of a query do not. In the example the row of rowid 5 has the text
  \<open>[1,2]\<close> in \<open>profile\<close>: loaded by \<open>cacheTable\<close> the snapshot holds the string, decoded from
  its cell the row holds the array, and the row of the statement holds the string.
\<close>

theorem json_text_cache_and_wal_differ:
  "db_select ex_env ''users'' [''id'', ''profile''] = Inr [ex_cached5]
   \<and> map_of ex_cached5 ''profile'' = Some (VText ''[1,2]'')
   \<and> JSON_parse ex_env ''[1,2]'' = Some (VArr [VInt 1, VInt 2])
   \<and> map_option (\<lambda>tc. map_option (\<lambda>r. map_of r ''profile'') (tc (Some (VInt 5))))
        (tableCache (fst (cacheTable ex_env ''users'' ex_state0)) ''users'')
       = Some (Some (Some (VText ''[1,2]'')))
   \<and> map_sum id (\<lambda>p. (fst p, map_of (snd p) ''profile'')) (decode_cell ex_env ex_state ''users'' ex_page 10)
       = Inr (5, Some (VArr [VInt 1, VInt 2]))
   \<and> stmt_all ex_env 1 = Inr [ex_row5']
   \<and> map_of ex_row5' ''profile'' = Some (VText ''[1,2]'')"
proof -
  have a: "readVarint ex_page 10 = 5" "getVarintSize ex_page 10 = 1"
    "readVarint ex_page 11 = 10" "getVarintSize ex_page 11 = 1"
    "js_slice ex_page 12 22 = ex_payload 5"
    by (simp_all add: ex_page_def ex_payload_def js_eval)
  have "decode_cell ex_env ex_state ''users'' ex_page 10
          = Inr (5, [(''id'', VInt 5), (''profile'', VArr [VInt 1, VInt 2]), (''password'', VText ''pw'')])"
    by (simp add: decode_cell_def a ex_parseRowData)
  then show ?thesis
    by (simp add: ex_cacheTable) (simp add: ex_env_def ex_rows)
qed

section \<open>Column keys: claim C10\<close>






end
